theory Spec2Isabelle
  imports Complex_Main "HOL-Library.Word" "HOL-Library.Signed_Division" "HOL-Library.Log_Nat"
begin

section \<open>The undo log of beak.c\<close>

text \<open>
  \<^verbatim>\<open>size_t\<close> and \<^verbatim>\<open>unsigned long\<close> are 64-bit unsigned integers (the makefile builds
  for an LP64 Unix): addition, subtraction and the conversion of the \<^verbatim>\<open>int\<close> offset
  \<^verbatim>\<open>-1\<close> wrap modulo \<open>2 ^ 64\<close>, as the word operations do.
\<close>

type_synonym size_t = "64 word"
type_synonym ulong = "64 word"

text \<open>
  What C leaves undefined is a fault of the model: a failed \<^verbatim>\<open>assert\<close>, \<^verbatim>\<open>% 0\<close>, an
  index outside the \<^verbatim>\<open>images\<close> array (or any index when the array is the null
  pointer), handing raylib an \<^verbatim>\<open>Image\<close> that was never loaded or is already
  unloaded, an \<^verbatim>\<open>int\<close> subtraction whose result no \<^verbatim>\<open>int\<close> holds, and the conversion to
  \<^verbatim>\<open>int\<close> of a \<^verbatim>\<open>float\<close> whose integral part no \<^verbatim>\<open>int\<close> holds.
\<close>

datatype fault =
  Assertion_Failed | Division_By_Zero | Out_Of_Bounds | Invalid_Image
  | Integer_Overflow | Float_Out_Of_Range

text \<open>
  One element of \<^verbatim>\<open>log->images\<close>: fresh from \<^verbatim>\<open>malloc\<close>, holding the pixels that
  \<^verbatim>\<open>LoadImageFromTexture\<close> copied, or left dangling by \<^verbatim>\<open>UnloadImage\<close>.
\<close>

datatype 'img slot = Uninit | Loaded 'img | Unloaded

record 'img UndoLog =
  images :: "'img slot list"
  log_size :: size_t
  used_size :: size_t
  log_top :: size_t
  selected :: size_t

text \<open>
  The log together with what the functions of beak.c read and write beside it: the
  pixels of the \<^verbatim>\<open>framebuffer\<close> render texture, and the images given to
  \<^verbatim>\<open>UnloadImage\<close> so far, oldest first.
\<close>

record 'img world = "'img UndoLog" +
  framebuffer :: 'img
  unloaded :: "'img list"

definition bind_fault :: "fault + 'a \<Rightarrow> ('a \<Rightarrow> fault + 'b) \<Rightarrow> fault + 'b" where
  "bind_fault m f = (case m of Inl e \<Rightarrow> Inl e | Inr x \<Rightarrow> f x)"

text \<open>\<^verbatim>\<open>UnloadImage(log->images[i])\<close>.\<close>

definition unload_slot :: "size_t \<Rightarrow> 'img world \<Rightarrow> fault + 'img world" where
  "unload_slot i s =
     (if unat i < length (images s) then
        (case images s ! unat i of
           Loaded x \<Rightarrow>
             Inr (s\<lparr>images := (images s)[unat i := Unloaded], unloaded := unloaded s @ [x]\<rparr>)
         | Uninit \<Rightarrow> Inl Invalid_Image
         | Unloaded \<Rightarrow> Inl Invalid_Image)
      else Inl Out_Of_Bounds)"

text \<open>
  \<^verbatim>\<open>undo_log_push\<close> (lines 45-60). \<^verbatim>\<open>LoadImageFromTexture\<close> is taken to return the
  framebuffer's pixels as they are.
\<close>

definition undo_log_push :: "'img world \<Rightarrow> fault + 'img world" where
  "undo_log_push s =
     (if \<not> used_size s \<le> log_size s then Inl Assertion_Failed
      else
        bind_fault (if used_size s = log_size s then unload_slot (log_top s) s else Inr s)
          (\<lambda>s1.
             if \<not> unat (log_top s1) < length (images s1) then Inl Out_Of_Bounds
             else if log_size s1 = 0 then Inl Division_By_Zero
             else
               Inr (s1\<lparr>images := (images s1)[unat (log_top s1) := Loaded (framebuffer s1)],
                       selected := log_top s1,
                       log_top := (log_top s1 + 1) mod log_size s1,
                       used_size :=
                         (if used_size s1 < log_size s1 then used_size s1 + 1
                          else used_size s1)\<rparr>)))"

text \<open>
  \<^verbatim>\<open>undo_log_copy\<close> (lines 63-75). The \<^verbatim>\<open>int\<close> offset is converted to \<^verbatim>\<open>size_t\<close> before
  it is added. Drawing the loaded texture over the whole framebuffer is taken to
  leave exactly the stored pixels there.
\<close>

definition undo_log_copy :: "'img world \<Rightarrow> int \<Rightarrow> fault + 'img world" where
  "undo_log_copy s offset =
     (if log_size s = 0 then Inl Division_By_Zero
      else
        (let sel = (selected s + log_size s + word_of_int offset) mod log_size s in
           if \<not> unat sel < length (images s) then Inl Out_Of_Bounds
           else
             (case images s ! unat sel of
                Loaded x \<Rightarrow> Inr (s\<lparr>selected := sel, framebuffer := x\<rparr>)
              | Uninit \<Rightarrow> Inl Invalid_Image
              | Unloaded \<Rightarrow> Inl Invalid_Image)))"

text \<open>
  \<^verbatim>\<open>clear_framebuffer\<close> (lines 83-88); \<open>blank\<close> is the canvas that
  \<^verbatim>\<open>ClearBackground(color)\<close> leaves.
\<close>

definition clear_framebuffer :: "'img world \<Rightarrow> 'img \<Rightarrow> fault + 'img world" where
  "clear_framebuffer s blank = undo_log_push (s\<lparr>framebuffer := blank\<rparr>)"

text \<open>
  Line 201, \<^verbatim>\<open>malloc(undo_log_size * sizeof(Image))\<close>. The byte count is computed in
  \<^verbatim>\<open>size_t\<close> and wraps. raylib's \<^verbatim>\<open>Image\<close> is a pointer and four \<^verbatim>\<open>int\<close>s: 24 bytes on
  LP64. \<^verbatim>\<open>main\<close> does not test the pointer it gets. \<open>malloc bytes\<close> tells whether
  the C library returns a block for a request of that many bytes; the block has
  room for \<open>bytes div 24\<close> images. The null pointer is an array with room for
  none: every access to it is outside the array.
\<close>

definition sizeof_Image :: size_t where
  "sizeof_Image = 24"

definition block_slots :: "(size_t \<Rightarrow> bool) \<Rightarrow> size_t \<Rightarrow> nat" where
  "block_slots malloc undo_log_size =
     (if malloc (undo_log_size * sizeof_Image)
      then unat (undo_log_size * sizeof_Image) div unat sizeof_Image
      else 0)"

text \<open>
  The log and framebuffer of \<^verbatim>\<open>main\<close> when line 209 is reached (lines 200-207), with
  an array that has room for \<open>slots\<close> images: the designated initialiser zeroes
  the fields it does not name, and the first \<^verbatim>\<open>clear_framebuffer\<close> overwrites whatever
  \<^verbatim>\<open>LoadRenderTexture\<close> left in the framebuffer.
\<close>

definition init_world :: "nat \<Rightarrow> size_t \<Rightarrow> 'img \<Rightarrow> 'img world" where
  "init_world slots undo_log_size fb =
     \<lparr>images = replicate slots Uninit, log_size = undo_log_size,
      used_size = 0, log_top = 0, selected = 0, framebuffer = fb, unloaded = []\<rparr>"

text \<open>Lines 200-209: the allocation and the first \<^verbatim>\<open>clear_framebuffer\<close>.\<close>

definition startup :: "(size_t \<Rightarrow> bool) \<Rightarrow> size_t \<Rightarrow> 'img \<Rightarrow> fault + 'img world" where
  "startup malloc undo_log_size blank =
     clear_framebuffer (init_world (block_slots malloc undo_log_size) undo_log_size blank) blank"

subsection \<open>One frame of the main loop\<close>

text \<open>
  What raylib reports in one frame: \<^verbatim>\<open>IsKeyPressed\<close> for C, W and Q,
  \<^verbatim>\<open>IsMouseButtonPressed\<close>, \<^verbatim>\<open>IsMouseButtonReleased\<close> and \<^verbatim>\<open>IsMouseButtonDown\<close> for
  the buttons the loop asks about, and \<open>capsule\<close>, the effect on the canvas of the
  three draw calls of lines 330-332 with the colour chosen in line 319.
\<close>

datatype ink = Brush_Color | Background

record 'img input =
  key_c :: bool
  key_w :: bool
  key_q :: bool
  left_pressed :: bool
  left_released :: bool
  left_down :: bool
  right_down :: bool
  extra_pressed :: bool
  side_pressed :: bool
  capsule :: "ink \<Rightarrow> 'img \<Rightarrow> 'img"

text \<open>Line 252.\<close>

definition log_top_dist :: "'img world \<Rightarrow> size_t" where
  "log_top_dist s = (log_top s + log_size s - selected s) mod log_size s"

definition count_loaded :: "'img slot list \<Rightarrow> nat" where
  "count_loaded xs = length (filter (\<lambda>x. x \<noteq> Uninit \<and> x \<noteq> Unloaded) xs)"

lemma count_loaded_update:
  "n < length xs \<Longrightarrow> xs ! n = Loaded x \<Longrightarrow>
   count_loaded (xs[n := Unloaded]) < count_loaded xs"
proof (induction xs arbitrary: n)
  case Nil
  then show ?case by simp
next
  case (Cons a xs)
  show ?case
  proof (cases n)
    case 0
    with Cons.prems show ?thesis by (simp add: count_loaded_def)
  next
    case (Suc m)
    with Cons.prems have "count_loaded (xs[m := Unloaded]) < count_loaded xs"
      by (intro Cons.IH) simp_all
    with Suc show ?thesis by (simp add: count_loaded_def)
  qed
qed

lemma unload_slot_count:
  "unload_slot i s = Inr s1 \<Longrightarrow> count_loaded (images s1) < count_loaded (images s)"
  by (auto simp: unload_slot_def count_loaded_update split: if_splits slot.splits)

text \<open>
  The loop of lines 262-264, from index \<open>i\<close>: every pass unloads a loaded image
  or faults, so it ends.
\<close>

function release_loop :: "size_t \<Rightarrow> 'img world \<Rightarrow> fault + 'img world" where
  "release_loop i s =
     (if i = log_top s then Inr s
      else
        (case unload_slot i s of
           Inl e \<Rightarrow> Inl e
         | Inr s1 \<Rightarrow>
             if log_size s1 = 0 then Inl Division_By_Zero
             else release_loop ((i + 1) mod log_size s1) s1))"
  by pat_completeness auto
termination
  by (relation "measure (\<lambda>(i, s). count_loaded (images s))")
     (auto simp: unload_slot_count)

text \<open>Lines 261-270, taken when the left button is pressed and \<open>d > 1\<close>.\<close>

definition prune :: "size_t \<Rightarrow> 'img world \<Rightarrow> fault + 'img world" where
  "prune d s =
     bind_fault (release_loop ((selected s + 1) mod log_size s) s)
       (\<lambda>s1. Inr (s1\<lparr>log_top := (selected s1 + 1) mod log_size s1,
                       used_size := used_size s1 - (d - 1)\<rparr>))"

text \<open>
  Lines 259-276, "going forwards in the log": \<open>d\<close> is \<^verbatim>\<open>log_top_dist\<close> as line 252
  computed it.
\<close>

definition go_forwards :: "size_t \<Rightarrow> 'img input \<Rightarrow> 'img world \<Rightarrow> fault + 'img world" where
  "go_forwards d inp s =
     (if d > 1 then
        bind_fault (if left_pressed inp then prune d s else Inr s)
          (\<lambda>s2. if key_w inp \<or> extra_pressed inp then undo_log_copy s2 1 else Inr s2)
      else Inr s)"

text \<open>
  Lines 279-281, "going backwards in the log", with the same \<open>d\<close> and the used
  size as it is by then.
\<close>

definition go_backwards :: "size_t \<Rightarrow> 'img input \<Rightarrow> 'img world \<Rightarrow> fault + 'img world" where
  "go_backwards d inp s =
     (if d < used_size s \<and> (key_q inp \<or> side_pressed inp) then undo_log_copy s (- 1)
      else Inr s)"

text \<open>Lines 285-287.\<close>

definition on_release :: "'img input \<Rightarrow> 'img world \<Rightarrow> fault + 'img world" where
  "on_release inp s = (if left_released inp then undo_log_push s else Inr s)"

text \<open>Lines 315-334.\<close>

definition drawing :: "'img input \<Rightarrow> 'img world \<Rightarrow> 'img world" where
  "drawing inp s =
     (if left_down inp \<or> right_down inp then
        s\<lparr>framebuffer :=
            capsule inp (if left_down inp then Brush_Color else Background) (framebuffer s)\<rparr>
      else s)"

text \<open>
  Lines 236-287 and 315-334 of the loop body, in the order of the source. Line 252
  computes \<^verbatim>\<open>log_top_dist\<close> once, after the Clear key is handled, and the tests that
  follow use that value. Saving to a file, the brush and the camera leave the log
  and the framebuffer as they are and are not part of the state.
\<close>

definition frame :: "'img \<Rightarrow> 'img input \<Rightarrow> 'img world \<Rightarrow> fault + 'img world" where
  "frame blank inp s =
     bind_fault (if key_c inp then clear_framebuffer s blank else Inr s)
       (\<lambda>s1.
          if log_size s1 = 0 then Inl Division_By_Zero
          else
            bind_fault (go_forwards (log_top_dist s1) inp s1)
              (\<lambda>s3.
                 bind_fault (go_backwards (log_top_dist s1) inp s3)
                   (\<lambda>s4. bind_fault (on_release inp s4) (\<lambda>s5. Inr (drawing inp s5)))))"

text \<open>Frames one after the other, stopping at the first fault.\<close>

fun frames :: "'img \<Rightarrow> 'img input list \<Rightarrow> 'img world \<Rightarrow> fault + 'img world" where
  "frames blank [] s = Inr s"
| "frames blank (inp # inps) s = bind_fault (frame blank inp s) (frames blank inps)"

text \<open>
  Frames in which raylib reports a single event, for stating what one request does:
  nothing at all, the C key, the Q key, the W key, and the left button going down
  or up.
\<close>

definition idle :: "'img input" where
  "idle =
     \<lparr>key_c = False, key_w = False, key_q = False, left_pressed = False,
      left_released = False, left_down = False, right_down = False,
      extra_pressed = False, side_pressed = False, capsule = (\<lambda>k x. x)\<rparr>"

definition clear_request :: "'img input" where
  "clear_request =
     \<lparr>key_c = True, key_w = False, key_q = False, left_pressed = False,
      left_released = False, left_down = False, right_down = False,
      extra_pressed = False, side_pressed = False, capsule = (\<lambda>k x. x)\<rparr>"

definition undo_request :: "'img input" where
  "undo_request =
     \<lparr>key_c = False, key_w = False, key_q = True, left_pressed = False,
      left_released = False, left_down = False, right_down = False,
      extra_pressed = False, side_pressed = False, capsule = (\<lambda>k x. x)\<rparr>"

definition redo_request :: "'img input" where
  "redo_request =
     \<lparr>key_c = False, key_w = True, key_q = False, left_pressed = False,
      left_released = False, left_down = False, right_down = False,
      extra_pressed = False, side_pressed = False, capsule = (\<lambda>k x. x)\<rparr>"

text \<open>The left button goes down and the frame's draw calls paint \<open>f\<close>.\<close>

definition left_press :: "('img \<Rightarrow> 'img) \<Rightarrow> 'img input" where
  "left_press f = idle\<lparr>left_pressed := True, left_down := True, capsule := (\<lambda>k. f)\<rparr>"

definition left_release :: "'img input" where
  "left_release =
     \<lparr>key_c = False, key_w = False, key_q = False, left_pressed = False,
      left_released = True, left_down = False, right_down = False,
      extra_pressed = False, side_pressed = False, capsule = (\<lambda>k x. x)\<rparr>"

text \<open>Nothing but an undo request (Q or the side button) may be reported.\<close>

definition only_undo :: "'img input \<Rightarrow> bool" where
  "only_undo inp =
     (\<not> key_c inp \<and> \<not> key_w inp \<and> \<not> extra_pressed inp \<and> \<not> left_pressed inp \<and>
      \<not> left_released inp \<and> \<not> left_down inp \<and> \<not> right_down inp)"

text \<open>Nothing but a redo request (W or the extra button) may be reported.\<close>

definition only_redo :: "'img input \<Rightarrow> bool" where
  "only_redo inp =
     (\<not> key_c inp \<and> \<not> key_q inp \<and> \<not> side_pressed inp \<and> \<not> left_pressed inp \<and>
      \<not> left_released inp \<and> \<not> left_down inp \<and> \<not> right_down inp)"

text \<open>No key and no button but the right one: whether it is down is left open.\<close>

definition erase_only :: "'img input \<Rightarrow> bool" where
  "erase_only inp =
     (\<not> key_c inp \<and> \<not> key_w inp \<and> \<not> key_q inp \<and> \<not> left_pressed inp \<and>
      \<not> left_released inp \<and> \<not> left_down inp \<and> \<not> extra_pressed inp \<and>
      \<not> side_pressed inp)"

section \<open>The camera target\<close>

text \<open>
  The macros of lines 16-23 on the values of \<^verbatim>\<open>int\<close> expressions. Every argument the
  loop passes is an expression that binds tighter than the comparison, so the
  expansion compares and returns the arguments as written.
\<close>

definition MAX_int :: "int \<Rightarrow> int \<Rightarrow> int" where
  "MAX_int a b = (if a > b then a else b)"

definition MIN_int :: "int \<Rightarrow> int \<Rightarrow> int" where
  "MIN_int a b = (if a < b then a else b)"

definition CLAMP :: "int \<Rightarrow> int \<Rightarrow> int \<Rightarrow> int" where
  "CLAMP lower x upper = MIN_int upper (MAX_int lower x)"

text \<open>
  An \<^verbatim>\<open>int\<close> is a 32-bit word read as two's complement (\<open>sint\<close>). The value of an
  \<^verbatim>\<open>int\<close> subtraction is the difference when an \<^verbatim>\<open>int\<close> holds it; otherwise C leaves
  the behaviour undefined.
\<close>

type_synonym c_int = "32 word"

definition INT_MIN :: int where
  "INT_MIN = - 2147483648"

definition INT_MAX :: int where
  "INT_MAX = 2147483647"

definition int_sub :: "int \<Rightarrow> int \<Rightarrow> fault + int" where
  "int_sub a b =
     (if INT_MIN \<le> a - b \<and> a - b \<le> INT_MAX then Inr (a - b) else Inl Integer_Overflow)"

text \<open>
  \<^verbatim>\<open>(int)canvas_width\<close>: the low 32 bits, read as two's complement (what the
  compilers of an LP64 Unix define for a value that \<^verbatim>\<open>int\<close> does not hold).
\<close>

definition int_cast :: "ulong \<Rightarrow> int" where
  "int_cast x = sint (ucast x :: c_int)"

text \<open>
  The right-hand side of lines 301, 302, 307 and 308 for one axis: \<open>w\<close> is the
  window's extent, \<open>canvas_dim\<close> the canvas's. C's \<^verbatim>\<open>/\<close> truncates. The result is one
  of the three arguments of \<^verbatim>\<open>CLAMP\<close>, each the value of an \<^verbatim>\<open>int\<close>.
\<close>

definition clamp_target :: "c_int \<Rightarrow> c_int \<Rightarrow> ulong \<Rightarrow> fault + c_int" where
  "clamp_target w target canvas_dim =
     bind_fault (int_sub (int_cast canvas_dim) (sint w sdiv 2))
       (\<lambda>room. Inr (word_of_int (CLAMP (sint w sdiv 2) (sint target) (MAX_int 0 room))))"

subsection \<open>Single-precision arithmetic\<close>

text \<open>
  A finite \<^verbatim>\<open>float\<close> is a rational number. The result of an operation is the exact
  result rounded to the nearest number with a significand of 24 bits and an
  exponent of at least -149, ties to the even significand: IEEE 754 binary32 with
  the default rounding, evaluated in \<^verbatim>\<open>float\<close> as the compilers of an LP64 Unix do.
  \<open>ilog2 x\<close> is the exponent of the leading bit of a positive \<open>x\<close>, the integer
  \<open>k\<close> with \<open>2 ^ k \<le> x < 2 ^ (k + 1)\<close> (lemma \<open>ilog2_bounds\<close>). A result too
  large for a \<^verbatim>\<open>float\<close> is infinite in C, and stays a large rational here: either
  way no \<^verbatim>\<open>int\<close> holds it. The positions raylib reports are \<^verbatim>\<open>float\<close>s; the
  definitions take any rational.
\<close>

type_synonym float = rat

definition ilog2 :: "rat \<Rightarrow> int" where
  "ilog2 x =
     (let k = bitlen (fst (quotient_of x)) - bitlen (snd (quotient_of x))
      in if power_int 2 k \<le> x then k else k - 1)"

text \<open>The nearest integer, ties to even.\<close>

definition round_even :: "rat \<Rightarrow> int" where
  "round_even q =
     (let f = \<lfloor>q\<rfloor>; r = q - of_int f
      in if r < 1 / 2 then f else if 1 / 2 < r then f + 1 else if even f then f else f + 1)"

definition round_float :: "rat \<Rightarrow> float" where
  "round_float x =
     (if x = 0 then 0
      else
        (let e = max (ilog2 \<bar>x\<bar> - 23) (- 149)
         in sgn x * of_int (round_even (\<bar>x\<bar> / power_int 2 e)) * power_int 2 e))"

text \<open>The conversion of an \<^verbatim>\<open>int\<close> to \<^verbatim>\<open>float\<close>, and the subtraction of two \<^verbatim>\<open>float\<close>s.\<close>

definition float_of_int :: "c_int \<Rightarrow> float" where
  "float_of_int i = round_float (of_int (sint i))"

definition float_sub :: "float \<Rightarrow> float \<Rightarrow> float" where
  "float_sub a b = round_float (a - b)"

text \<open>
  The conversion of a \<^verbatim>\<open>float\<close> to \<^verbatim>\<open>int\<close> discards the fraction; when no \<^verbatim>\<open>int\<close>
  holds the integral part, C leaves the behaviour undefined (ISO C 6.3.1.4).
\<close>

definition trunc :: "rat \<Rightarrow> int" where
  "trunc x = (if 0 \<le> x then \<lfloor>x\<rfloor> else \<lceil>x\<rceil>)"

definition int_of_float :: "float \<Rightarrow> fault + c_int" where
  "int_of_float x =
     (if INT_MIN \<le> trunc x \<and> trunc x \<le> INT_MAX then Inr (word_of_int (trunc x))
      else Inl Float_Out_Of_Range)"

subsection \<open>Panning and resizing\<close>

text \<open>
  Line 297 (and 298): \<^verbatim>\<open>target_x -= mouse_pos.x - prev_mouse_pos.x\<close>. The mouse
  positions are \<^verbatim>\<open>float\<close>s; the target is converted to \<^verbatim>\<open>float\<close>, the two subtractions
  are done in \<^verbatim>\<open>float\<close>, and the result is converted back to \<^verbatim>\<open>int\<close>.
\<close>

definition pan_axis :: "c_int \<Rightarrow> float \<Rightarrow> float \<Rightarrow> fault + c_int" where
  "pan_axis target mouse prev =
     int_of_float (float_sub (float_of_int target) (float_sub mouse prev))"

text \<open>
  Lines 296-303: the middle button is down; the mouse is at \<open>mouse_pos\<close> and was
  at \<open>prev_mouse_pos\<close> in the frame before.
\<close>

definition pan ::
  "c_int \<Rightarrow> c_int \<Rightarrow> ulong \<Rightarrow> ulong \<Rightarrow> float \<times> float \<Rightarrow> float \<times> float \<Rightarrow> c_int \<times> c_int
   \<Rightarrow> fault + c_int \<times> c_int" where
  "pan w h canvas_width canvas_height mouse_pos prev_mouse_pos target =
     bind_fault (pan_axis (fst target) (fst mouse_pos) (fst prev_mouse_pos))
       (\<lambda>x1. bind_fault (pan_axis (snd target) (snd mouse_pos) (snd prev_mouse_pos))
          (\<lambda>y1. bind_fault (clamp_target w x1 canvas_width)
             (\<lambda>x2. bind_fault (clamp_target h y1 canvas_height)
                (\<lambda>y2. Inr (x2, y2)))))"

text \<open>Lines 305-309: the window was resized to \<open>w\<close> by \<open>h\<close>.\<close>

definition resized ::
  "c_int \<Rightarrow> c_int \<Rightarrow> ulong \<Rightarrow> ulong \<Rightarrow> c_int \<times> c_int \<Rightarrow> fault + c_int \<times> c_int" where
  "resized w h canvas_width canvas_height target =
     bind_fault (clamp_target w (fst target) canvas_width)
       (\<lambda>x. bind_fault (clamp_target h (snd target) canvas_height)
          (\<lambda>y. Inr (x, y)))"

section \<open>The command line\<close>

text \<open>The variables of \<^verbatim>\<open>main\<close> that the options set, with their defaults (lines 108-114).\<close>

record config =
  canvas_width :: ulong
  canvas_height :: ulong
  window_width :: ulong
  window_height :: ulong
  undo_log_size :: ulong
  background_hexcolor :: ulong
  save_path :: string

definition default_config :: config where
  "default_config =
     \<lparr>canvas_width = 2560, canvas_height = 1440, window_width = 800, window_height = 600,
      undo_log_size = 16, background_hexcolor = 0x111600FF, save_path = ''beak.png''\<rparr>"

datatype CmdLineOptionType = CMDLINE_OPTION_STR | CMDLINE_OPTION_ULONG | CMDLINE_OPTION_HEX

text \<open>The variable an option's pointer refers to.\<close>

datatype variable =
  Canvas_Width | Canvas_Height | Window_Width | Window_Height | Undo_Log_Size
  | Background_Hexcolor | Save_Path

record CmdLineOption =
  name :: string
  format :: string
  type :: CmdLineOptionType
  ptr :: variable

definition options :: "CmdLineOption list" where
  "options =
     [\<lparr>name = ''--canvas-width'', format = ''ulong'', type = CMDLINE_OPTION_ULONG,
       ptr = Canvas_Width\<rparr>,
      \<lparr>name = ''--canvas-height'', format = ''ulong'', type = CMDLINE_OPTION_ULONG,
       ptr = Canvas_Height\<rparr>,
      \<lparr>name = ''--window-width'', format = ''ulong'', type = CMDLINE_OPTION_ULONG,
       ptr = Window_Width\<rparr>,
      \<lparr>name = ''--window-height'', format = ''ulong'', type = CMDLINE_OPTION_ULONG,
       ptr = Window_Height\<rparr>,
      \<lparr>name = ''--undo-log-size'', format = ''ulong'', type = CMDLINE_OPTION_ULONG,
       ptr = Undo_Log_Size\<rparr>,
      \<lparr>name = ''--background'', format = ''0xRRGGBBAA'', type = CMDLINE_OPTION_HEX,
       ptr = Background_Hexcolor\<rparr>,
      \<lparr>name = ''--save-path'', format = ''/save/path/file.png'', type = CMDLINE_OPTION_STR,
       ptr = Save_Path\<rparr>]"

text \<open>\<^verbatim>\<open>*options[i].ulong = x\<close> and \<^verbatim>\<open>*options[i].str = x\<close>.\<close>

fun store_ulong :: "variable \<Rightarrow> ulong \<Rightarrow> config \<Rightarrow> config" where
  "store_ulong Canvas_Width x c = c\<lparr>canvas_width := x\<rparr>"
| "store_ulong Canvas_Height x c = c\<lparr>canvas_height := x\<rparr>"
| "store_ulong Window_Width x c = c\<lparr>window_width := x\<rparr>"
| "store_ulong Window_Height x c = c\<lparr>window_height := x\<rparr>"
| "store_ulong Undo_Log_Size x c = c\<lparr>undo_log_size := x\<rparr>"
| "store_ulong Background_Hexcolor x c = c\<lparr>background_hexcolor := x\<rparr>"
| "store_ulong Save_Path x c = c"

fun store_str :: "variable \<Rightarrow> string \<Rightarrow> config \<Rightarrow> config" where
  "store_str Save_Path x c = c\<lparr>save_path := x\<rparr>"
| "store_str v x c = c"

text \<open>
  How \<^verbatim>\<open>main\<close> ends before the window opens: after the help text with status 0,
  or after a line on \<^verbatim>\<open>stderr\<close> with status -1.
\<close>

datatype early_exit =
  Help
  | Missing_Value string
  | Invalid_Option string string

fun exit_status :: "early_exit \<Rightarrow> int" where
  "exit_status Help = 0"
| "exit_status (Missing_Value option) = - 1"
| "exit_status (Invalid_Option option val) = - 1"

definition ULONG_MAX :: ulong where
  "ULONG_MAX = 0xFFFFFFFFFFFFFFFF"

text \<open>
  The loop over the option table (lines 170-192) for one option and its value.
  \<open>strtoul\<close> stands for the C library's function, with \<^verbatim>\<open>NULL\<close> as the end pointer.
\<close>

fun match_options ::
  "(string \<Rightarrow> nat \<Rightarrow> ulong) \<Rightarrow> CmdLineOption list \<Rightarrow> string \<Rightarrow> string \<Rightarrow> config
   \<Rightarrow> early_exit + config" where
  "match_options strtoul [] option val c = Inr c"
| "match_options strtoul (opt # opts) option val c =
     (if name opt \<noteq> option then match_options strtoul opts option val c
      else
        (case type opt of
           CMDLINE_OPTION_STR \<Rightarrow>
             match_options strtoul opts option val (store_str (ptr opt) val c)
         | CMDLINE_OPTION_ULONG \<Rightarrow>
             (if strtoul val 10 = ULONG_MAX then Inl (Invalid_Option option val)
              else
                match_options strtoul opts option val
                  (store_ulong (ptr opt) (strtoul val 10) c))
         | CMDLINE_OPTION_HEX \<Rightarrow>
             (if strtoul val 16 = ULONG_MAX then Inl (Invalid_Option option val)
              else
                match_options strtoul opts option val
                  (store_ulong (ptr opt) (strtoul val 16) c))))"

text \<open>
  The loop over \<^verbatim>\<open>argv[1]\<close>, \<^verbatim>\<open>argv[2]\<close>, ... (lines 129-193). \<^verbatim>\<open>strncmp\<close> with length
  6 compares the first six characters.
\<close>

fun parse_args ::
  "(string \<Rightarrow> nat \<Rightarrow> ulong) \<Rightarrow> string list \<Rightarrow> config \<Rightarrow> early_exit + config" where
  "parse_args strtoul [] c = Inr c"
| "parse_args strtoul [option] c =
     (if take 6 option = ''--help'' then Inl Help else Inl (Missing_Value option))"
| "parse_args strtoul (option # val # rest) c =
     (if take 6 option = ''--help'' then Inl Help
      else
        (case match_options strtoul options option val c of
           Inl e \<Rightarrow> Inl e
         | Inr c1 \<Rightarrow> parse_args strtoul rest c1))"

definition main_args :: "(string \<Rightarrow> nat \<Rightarrow> ulong) \<Rightarrow> string list \<Rightarrow> early_exit + config" where
  "main_args strtoul argv = parse_args strtoul (tl argv) default_config"

subsection \<open>The C library's \<^verbatim>\<open>strtoul\<close>\<close>

text \<open>
  \<^verbatim>\<open>strtoul\<close> as ISO C describes it (7.22.1.4), for the bases 10 and 16 that
  \<^verbatim>\<open>main\<close> uses: white space is skipped, a sign and (for base 16) a \<^verbatim>\<open>0x\<close> prefix are
  optional, the longest run of digits of the base is converted, and what follows
  is ignored. With no digit at all the result is 0; a number that does not fit is
  \<^verbatim>\<open>ULONG_MAX\<close>; after a minus sign the number is negated in the unsigned type.
\<close>

definition isspace :: "char \<Rightarrow> bool" where
  "isspace ch = (ch \<in> set [CHR '' '', CHR 0x09, CHR 0x0A, CHR 0x0B, CHR 0x0C, CHR 0x0D])"

definition digit_of :: "char \<Rightarrow> nat" where
  "digit_of ch =
     (let k = (of_char ch :: nat) in
        if 48 \<le> k \<and> k \<le> 57 then k - 48
        else if 97 \<le> k \<and> k \<le> 122 then k - 87
        else if 65 \<le> k \<and> k \<le> 90 then k - 55
        else 36)"

definition number_of :: "nat \<Rightarrow> string \<Rightarrow> int" where
  "number_of base cs =
     foldl (\<lambda>a ch. a * int base + int (digit_of ch)) 0
       (takeWhile (\<lambda>ch. digit_of ch < base) cs)"

definition skip_prefix :: "nat \<Rightarrow> string \<Rightarrow> string" where
  "skip_prefix base cs =
     (case cs of
        z # x # d # rest \<Rightarrow>
          if base = 16 \<and> z = CHR ''0'' \<and> (x = CHR ''x'' \<or> x = CHR ''X'') \<and> digit_of d < 16
          then d # rest
          else cs
      | _ \<Rightarrow> cs)"

definition strtoul_c :: "string \<Rightarrow> nat \<Rightarrow> ulong" where
  "strtoul_c str base =
     (let cs = dropWhile isspace str;
          negative = (cs \<noteq> [] \<and> hd cs = CHR ''-'');
          signed = (cs \<noteq> [] \<and> (hd cs = CHR ''-'' \<or> hd cs = CHR ''+''));
          n = number_of base (skip_prefix base (if signed then tl cs else cs))
      in if 2 ^ 64 \<le> n then ULONG_MAX
         else if negative then - word_of_int n
         else word_of_int n)"

section \<open>Sequences of pushes, well-formed logs and reachable states\<close>

text \<open>Pushing the canvases \<open>xs\<close> one after the other, stopping at the first fault.\<close>

fun pushes :: "'img list \<Rightarrow> 'img world \<Rightarrow> fault + 'img world" where
  "pushes [] s = Inr s"
| "pushes (x # xs) s = bind_fault (undo_log_push (s\<lparr>framebuffer := x\<rparr>)) (pushes xs)"

text \<open>
  \<open>pushed ys s\<close>: the log \<open>s\<close> is what pushing the canvases \<open>ys\<close> into an empty
  log leaves. The write index and the used size count the pushes, the images
  unloaded are the canvases that no longer fit, oldest first, and the last
  \<open>size\<close> canvases sit in their slots.
\<close>

definition pushed :: "'img list \<Rightarrow> 'img world \<Rightarrow> bool" where
  "pushed ys s =
     (0 < log_size s \<and> length (images s) = unat (log_size s) \<and>
      unat (log_top s) = length ys mod unat (log_size s) \<and>
      unat (used_size s) = min (length ys) (unat (log_size s)) \<and>
      unloaded s = take (length ys - unat (log_size s)) ys \<and>
      (\<forall>i < length ys. length ys \<le> i + unat (log_size s) \<longrightarrow>
         images s ! (i mod unat (log_size s)) = Loaded (ys ! i)))"

text \<open>
  The indices of a log lie below its size, and the size is less than \<open>2 ^ 63\<close>:
  an array of images cannot take more than the address space, and below that bound
  \<open>top + size\<close> and \<open>selected + size + 1\<close> do not wrap.
\<close>

definition in_range :: "'img world \<Rightarrow> bool" where
  "in_range s =
     (0 < log_size s \<and> log_size s < 2 ^ 63 \<and>
      log_top s < log_size s \<and> selected s < log_size s \<and> used_size s \<le> log_size s)"

text \<open>The array has room for \<open>size\<close> images.\<close>

definition allocated :: "'img world \<Rightarrow> bool" where
  "allocated s = (length (images s) = unat (log_size s))"

text \<open>
  At least one image is in use and the distance of line 252 is at most the number
  of images in use.
\<close>

definition history_ok :: "'img world \<Rightarrow> bool" where
  "history_ok s = (in_range s \<and> 1 \<le> used_size s \<and> log_top_dist s \<le> used_size s)"

text \<open>
  The states of the loop for an undo log size \<open>n\<close>: the state after start-up, and
  the state a frame returns from a state of the loop, whatever raylib reports.
\<close>

inductive reachable :: "(size_t \<Rightarrow> bool) \<Rightarrow> size_t \<Rightarrow> 'img \<Rightarrow> 'img world \<Rightarrow> bool"
  for malloc :: "size_t \<Rightarrow> bool" and n :: size_t and blank :: 'img where
  start: "startup malloc n blank = Inr s \<Longrightarrow> reachable malloc n blank s"
| step: "reachable malloc n blank s \<Longrightarrow> frame blank inp s = Inr s' \<Longrightarrow>
         reachable malloc n blank s'"

text \<open>
  Which slots hold an image. \<open>behind s j\<close> counts how many pushes ago slot \<open>j\<close>
  was written if the write index only ever advanced: 0 for the slot just before the
  write index. \<open>slots_ok\<close>: the \<open>used_size\<close> slots behind the write index hold
  a loaded image.
\<close>

definition is_loaded :: "'img slot \<Rightarrow> bool" where
  "is_loaded x = (case x of Loaded y \<Rightarrow> True | Uninit \<Rightarrow> False | Unloaded \<Rightarrow> False)"

definition behind :: "'img world \<Rightarrow> nat \<Rightarrow> nat" where
  "behind s j = (unat (log_top s) + unat (log_size s) - 1 - j) mod unat (log_size s)"

definition slots_ok :: "'img world \<Rightarrow> bool" where
  "slots_ok s =
     list_all (\<lambda>j. if behind s j < unat (used_size s) then is_loaded (images s ! j) else True)
       [0..<length (images s)]"

definition log_ok :: "'img world \<Rightarrow> bool" where
  "log_ok s = (history_ok s \<and> allocated s \<and> slots_ok s)"

text \<open>
  \<open>keeps_or_unloads xs ys\<close>: every slot of \<open>ys\<close> holds what it holds in \<open>xs\<close>
  or has been unloaded, so that no slot has received an image.
\<close>

definition keeps_or_unloads :: "'img slot list \<Rightarrow> 'img slot list \<Rightarrow> bool" where
  "keeps_or_unloads xs ys = list_all2 (\<lambda>x y. y = x \<or> y = Unloaded) xs ys"

section \<open>Example runs\<close>

text \<open>
  A C library that serves every request of up to \<open>2 ^ 30\<close> bytes, and one that serves
  none.
\<close>

definition malloc_1G :: "size_t \<Rightarrow> bool" where
  "malloc_1G bytes = (bytes \<le> 0x40000000)"

definition malloc_null :: "size_t \<Rightarrow> bool" where
  "malloc_null bytes = False"

text \<open>
  A log of four slots with canvases numbered 0, 1, 2, ...: \<open>fresh\<close> is the state
  after start-up, \<open>at_tip\<close> after two strokes, \<open>browsing\<close> after two undo requests
  more.
\<close>

definition fresh :: "nat world" where
  "fresh =
     \<lparr>images = [Loaded 0, Uninit, Uninit, Uninit], log_size = 4, used_size = 1,
      log_top = 1, selected = 0, framebuffer = 0, unloaded = []\<rparr>"

definition at_tip :: "nat world" where
  "at_tip =
     \<lparr>images = [Loaded 0, Loaded 1, Loaded 2, Uninit], log_size = 4, used_size = 3,
      log_top = 3, selected = 2, framebuffer = 2, unloaded = []\<rparr>"

definition browsing :: "nat world" where
  "browsing =
     \<lparr>images = [Loaded 0, Loaded 1, Loaded 2, Uninit], log_size = 4, used_size = 3,
      log_top = 3, selected = 0, framebuffer = 0, unloaded = []\<rparr>"

text \<open>
  \<open>after_clear\<close>: \<open>browsing\<close> after the Clear key. \<open>after_stroke\<close>: \<open>browsing\<close>
  after a stroke that leaves canvas 9. \<open>full3\<close>: a log of three slots after
  start-up and two strokes.
\<close>

definition after_clear :: "nat world" where
  "after_clear =
     \<lparr>images = [Loaded 0, Loaded 1, Loaded 2, Loaded 0], log_size = 4, used_size = 4,
      log_top = 0, selected = 3, framebuffer = 0, unloaded = []\<rparr>"

definition after_stroke :: "nat world" where
  "after_stroke =
     \<lparr>images = [Loaded 0, Loaded 9, Unloaded, Uninit], log_size = 4, used_size = 2,
      log_top = 2, selected = 1, framebuffer = 9, unloaded = [1, 2]\<rparr>"

definition full3 :: "nat world" where
  "full3 =
     \<lparr>images = [Loaded 0, Loaded 1, Loaded 2], log_size = 3, used_size = 3,
      log_top = 0, selected = 2, framebuffer = 2, unloaded = []\<rparr>"

text \<open>A stroke that leaves canvas \<open>k\<close>: the button goes down, then up.\<close>

definition stroke :: "nat \<Rightarrow> nat input list" where
  "stroke k = [left_press (\<lambda>x. k), left_release]"

section \<open>Evaluating the model\<close>

lemmas input_defs =
  idle_def clear_request_def undo_request_def redo_request_def left_press_def
  left_release_def

lemmas step_defs =
  frame_def go_forwards_def go_backwards_def on_release_def drawing_def bind_fault_def
  clear_framebuffer_def undo_log_push_def undo_log_copy_def unload_slot_def prune_def
  log_top_dist_def Let_def

lemmas eval_defs = step_defs input_defs release_loop.simps

lemma replicate_2: "replicate 2 x = [x, x]"
  by (simp add: numeral_2_eq_2)

lemma replicate_3: "replicate 3 x = [x, x, x]"
  by (simp add: numeral_eq_Suc)

lemma replicate_4: "replicate 4 x = [x, x, x, x]"
  by (simp add: numeral_eq_Suc)

lemma block_slots_4: "block_slots malloc_1G 4 = 4"
  by (simp add: block_slots_def sizeof_Image_def malloc_1G_def)

lemma startup_fresh: "startup malloc_1G 4 0 = Inr fresh"
  by (simp add: startup_def block_slots_4 init_world_def fresh_def step_defs replicate_4)

lemma strokes_at_tip: "frames 0 (stroke 1 @ stroke 2) fresh = Inr at_tip"
  by (simp add: stroke_def fresh_def at_tip_def input_defs step_defs)

lemma undo_twice_browsing: "frames 0 [undo_request, undo_request] at_tip = Inr browsing"
  by (simp add: at_tip_def browsing_def input_defs step_defs)

lemma reachable_frames:
  "reachable malloc n blank s \<Longrightarrow> frames blank inps s = Inr s' \<Longrightarrow>
   reachable malloc n blank s'"
proof (induction inps arbitrary: s)
  case Nil
  then show ?case by simp
next
  case (Cons inp inps)
  from Cons.prems(2) obtain s1 where
    "frame blank inp s = Inr s1" and "frames blank inps s1 = Inr s'"
    by (cases "frame blank inp s") (simp_all add: bind_fault_def)
  with Cons.IH [of s1] Cons.prems(1) show ?case by (blast intro: reachable.step)
qed

section \<open>Arithmetic of the indices\<close>

subsection \<open>Words as numbers\<close>

lemma unat_plus_small:
  fixes a b :: "64 word"
  assumes "unat a + unat b < 2 ^ 64"
  shows "unat (a + b) = unat a + unat b"
  using assms by (simp add: unat_add_lem [THEN iffD1])

lemma unat_inc:
  fixes u n :: "64 word"
  assumes "u < n"
  shows "unat (u + 1) = unat u + 1"
proof -
  have "unat u < unat n" using assms by (simp add: word_less_nat_alt)
  moreover have "unat n < 2 ^ 64" using unsigned_less [of n, where 'a = nat] by simp
  ultimately have "unat u + unat (1 :: 64 word) < 2 ^ 64" by simp
  then have "unat (u + 1) = unat u + unat (1 :: 64 word)"
    by (rule unat_plus_small)
  then show ?thesis by simp
qed

lemma unat_next_mod:
  fixes t n :: "64 word"
  assumes "t < n"
  shows "unat ((t + 1) mod n) = (unat t + 1) mod unat n"
  using assms by (simp add: unat_mod unat_inc)

lemma unat_next:
  fixes t n :: "64 word"
  assumes "t < n"
  shows "unat ((t + 1) mod n) = (if unat t + 1 = unat n then 0 else unat t + 1)"
proof -
  have "unat t < unat n" using assms by (simp add: word_less_nat_alt)
  then show ?thesis using assms by (simp add: unat_mod unat_inc)
qed

lemma mod_wrap: "x < n \<Longrightarrow> (x + n) mod n = x" for x n :: nat
  by simp

lemma unat_dist:
  fixes s t n :: "64 word"
  assumes "t < n" "s < n" "unat n < 2 ^ 63"
  shows "unat ((t + n - s) mod n) =
         (if unat s \<le> unat t then unat t - unat s else unat t + unat n - unat s)"
proof -
  have b: "unat t < unat n" "unat s < unat n" using assms by (simp_all add: word_less_nat_alt)
  have c: "unat (t + n) = unat t + unat n"
    using b assms(3) by (intro unat_plus_small) simp
  have "s \<le> t + n" using b c by (simp add: word_le_nat_alt)
  then have a: "unat (t + n - s) = unat t + unat n - unat s" by (simp add: unat_sub c)
  have e: "unat ((t + n - s) mod n) = (unat t + unat n - unat s) mod unat n"
    by (simp only: unat_mod a)
  show ?thesis
  proof (cases "unat s \<le> unat t")
    case True
    then have "unat t + unat n - unat s = (unat t - unat s) + unat n" by simp
    moreover have "unat t - unat s < unat n" using b by simp
    ultimately show ?thesis using True e by (simp only: mod_wrap if_True)
  next
    case False
    with b e show ?thesis by simp
  qed
qed

lemma unat_prev:
  fixes s n :: "64 word"
  assumes "s < n" "unat n < 2 ^ 63"
  shows "unat ((s + n + word_of_int (- 1)) mod n) =
         (if unat s = 0 then unat n - 1 else unat s - 1)"
proof -
  have b: "unat s < unat n" using assms by (simp_all add: word_less_nat_alt)
  have c: "unat (s + n) = unat s + unat n"
    using b assms(2) by (intro unat_plus_small) simp
  have "1 \<le> s + n" using b c by (simp add: word_le_nat_alt)
  then have "unat (s + n - 1) = unat s + unat n - 1" by (simp add: unat_sub c)
  moreover have "s + n + word_of_int (- 1) = s + n - 1" by simp
  ultimately have e: "unat ((s + n + word_of_int (- 1)) mod n) = (unat s + unat n - 1) mod unat n"
    by (simp only: unat_mod)
  show ?thesis
  proof (cases "unat s = 0")
    case True
    with b e show ?thesis by simp
  next
    case False
    then have "unat s + unat n - 1 = (unat s - 1) + unat n" by simp
    moreover have "unat s - 1 < unat n" using b by simp
    ultimately show ?thesis using False e by (simp only: mod_wrap if_False)
  qed
qed

lemma unat_succ:
  fixes s n :: "64 word"
  assumes "s < n" "unat n < 2 ^ 63"
  shows "unat ((s + n + word_of_int 1) mod n) =
         (if unat s + 1 = unat n then 0 else unat s + 1)"
proof -
  have b: "unat s < unat n" using assms by (simp_all add: word_less_nat_alt)
  have c: "unat (s + n) = unat s + unat n"
    using b assms(2) by (intro unat_plus_small) simp
  have "unat (s + n + 1) = unat (s + n) + unat (1 :: 64 word)"
    using b assms(2) c by (intro unat_plus_small) simp
  then have "unat (s + n + 1) = unat s + 1 + unat n" by (simp add: c)
  moreover have "s + n + word_of_int 1 = s + n + 1" by simp
  ultimately have e: "unat ((s + n + word_of_int 1) mod n) = (unat s + 1 + unat n) mod unat n"
    by (simp only: unat_mod)
  show ?thesis
  proof (cases "unat s + 1 = unat n")
    case True
    then have "unat s + 1 + unat n = unat n + unat n" by simp
    then have "(unat s + 1 + unat n) mod unat n = 0" by (simp only: mod_add_self2 mod_self)
    with True e show ?thesis by simp
  next
    case False
    with b have "unat s + 1 < unat n" by simp
    then show ?thesis using False e by (simp only: mod_wrap if_False)
  qed
qed

lemma unat_shrink:
  fixes u d :: "64 word"
  assumes "1 \<le> d" "d \<le> u"
  shows "unat (u - (d - 1)) = unat u - (unat d - 1)"
proof -
  have a: "unat (d - 1) = unat d - 1" using assms(1) by (simp add: unat_sub)
  have "unat (d - 1) \<le> unat u" using assms(2) a by (simp add: word_le_nat_alt)
  then have "d - 1 \<le> u" by (simp add: word_le_nat_alt)
  then show ?thesis by (simp add: unat_sub a)
qed

subsection \<open>What each operation does to the indices\<close>

lemma unload_indices:
  assumes "unload_slot i s = Inr s'"
  shows "log_size s' = log_size s" "log_top s' = log_top s" "used_size s' = used_size s"
    "selected s' = selected s" "framebuffer s' = framebuffer s"
    "length (images s') = length (images s)"
proof -
  from assms obtain x where "s' = s\<lparr>images := (images s)[unat i := Unloaded], unloaded := unloaded s @ [x]\<rparr>"
    by (auto simp add: unload_slot_def split: if_splits slot.splits)
  then show "log_size s' = log_size s" "log_top s' = log_top s" "used_size s' = used_size s"
    "selected s' = selected s" "framebuffer s' = framebuffer s"
    "length (images s') = length (images s)"
    by simp_all
qed

lemma push_indices:
  assumes "undo_log_push s = Inr s'"
  shows "log_size s' = log_size s" "selected s' = log_top s"
    "log_top s' = (log_top s + 1) mod log_size s"
    "used_size s' = (if used_size s < log_size s then used_size s + 1 else used_size s)"
    "length (images s') = length (images s)" "framebuffer s' = framebuffer s"
proof -
  from assms obtain s1 where
    u: "(if used_size s = log_size s then unload_slot (log_top s) s else Inr s) = Inr s1"
    and s': "s' = s1\<lparr>images := (images s1)[unat (log_top s1) := Loaded (framebuffer s1)],
                     selected := log_top s1,
                     log_top := (log_top s1 + 1) mod log_size s1,
                     used_size :=
                       (if used_size s1 < log_size s1 then used_size s1 + 1
                        else used_size s1)\<rparr>"
    by (simp add: undo_log_push_def bind_fault_def split: if_splits sum.splits)
  have e: "log_size s1 = log_size s \<and> log_top s1 = log_top s \<and> used_size s1 = used_size s \<and>
           selected s1 = selected s \<and> framebuffer s1 = framebuffer s \<and>
           length (images s1) = length (images s)"
  proof (cases "used_size s = log_size s")
    case True
    with u have "unload_slot (log_top s) s = Inr s1" by simp
    from unload_indices [OF this] show ?thesis by simp
  next
    case False
    with u show ?thesis by simp
  qed
  with s' show "log_size s' = log_size s" "selected s' = log_top s"
    "log_top s' = (log_top s + 1) mod log_size s"
    "used_size s' = (if used_size s < log_size s then used_size s + 1 else used_size s)"
    "length (images s') = length (images s)" "framebuffer s' = framebuffer s"
    by simp_all
qed

lemma copy_indices:
  assumes "undo_log_copy s off = Inr s'"
  shows "log_size s' = log_size s" "log_top s' = log_top s" "used_size s' = used_size s"
    "selected s' = (selected s + log_size s + word_of_int off) mod log_size s"
    "images s' = images s" "unloaded s' = unloaded s"
proof -
  from assms obtain x where
    "s' = s\<lparr>selected := (selected s + log_size s + word_of_int off) mod log_size s,
             framebuffer := x\<rparr>"
    by (auto simp add: undo_log_copy_def Let_def split: if_splits slot.splits)
  then show "log_size s' = log_size s" "log_top s' = log_top s" "used_size s' = used_size s"
    "selected s' = (selected s + log_size s + word_of_int off) mod log_size s"
    "images s' = images s" "unloaded s' = unloaded s"
    by simp_all
qed

lemma release_loop_indices:
  "release_loop i s = Inr s' \<Longrightarrow>
   log_size s' = log_size s \<and> log_top s' = log_top s \<and> used_size s' = used_size s \<and>
   selected s' = selected s \<and> framebuffer s' = framebuffer s \<and>
   length (images s') = length (images s)"
proof (induction i s rule: release_loop.induct)
  case (1 i s)
  show ?case
  proof (cases "i = log_top s")
    case True
    with "1.prems" show ?thesis by (simp add: release_loop.simps [of i s])
  next
    case False
    with "1.prems" obtain s1 where
      u: "unload_slot i s = Inr s1" and nz: "log_size s1 \<noteq> 0"
      and r: "release_loop ((i + 1) mod log_size s1) s1 = Inr s'"
      by (simp add: release_loop.simps [of i s] split: sum.splits if_splits)
    from "1.IH" [OF False u nz r] unload_indices [OF u] show ?thesis by simp
  qed
qed

lemma prune_Inr:
  assumes "prune d s = Inr s'"
  obtains s1 where "release_loop ((selected s + 1) mod log_size s) s = Inr s1"
    and "s' = s1\<lparr>log_top := (selected s1 + 1) mod log_size s1,
                   used_size := used_size s1 - (d - 1)\<rparr>"
proof (cases "release_loop ((selected s + 1) mod log_size s) s")
  case (Inl e)
  with assms show ?thesis by (simp add: prune_def bind_fault_def)
next
  case (Inr s1)
  with assms have "s1\<lparr>log_top := (selected s1 + 1) mod log_size s1,
                   used_size := used_size s1 - (d - 1)\<rparr> = s'"
    by (simp add: prune_def bind_fault_def)
  with Inr that show ?thesis by blast
qed

lemma prune_indices:
  assumes "prune d s = Inr s'"
  shows "log_size s' = log_size s" "selected s' = selected s"
    "log_top s' = (selected s + 1) mod log_size s"
    "used_size s' = used_size s - (d - 1)"
    "framebuffer s' = framebuffer s" "length (images s') = length (images s)"
proof -
  from assms obtain s1 where r: "release_loop ((selected s + 1) mod log_size s) s = Inr s1"
    and s': "s' = s1\<lparr>log_top := (selected s1 + 1) mod log_size s1,
                      used_size := used_size s1 - (d - 1)\<rparr>"
    by (rule prune_Inr)
  from release_loop_indices [OF r] s'
  show "log_size s' = log_size s" "selected s' = selected s"
    "log_top s' = (selected s + 1) mod log_size s"
    "used_size s' = used_size s - (d - 1)"
    "framebuffer s' = framebuffer s" "length (images s') = length (images s)"
    by simp_all
qed

subsection \<open>The indices as numbers\<close>

lemma in_range_nat:
  "in_range s =
     (0 < unat (log_size s) \<and> unat (log_size s) < 2 ^ 63 \<and>
      unat (log_top s) < unat (log_size s) \<and> unat (selected s) < unat (log_size s) \<and>
      unat (used_size s) \<le> unat (log_size s))"
  by (simp add: in_range_def word_less_nat_alt word_le_nat_alt)

lemma dist_nat:
  assumes "in_range s"
  shows "unat (log_top_dist s) =
         (if unat (selected s) \<le> unat (log_top s) then unat (log_top s) - unat (selected s)
          else unat (log_top s) + unat (log_size s) - unat (selected s))"
  using assms unfolding log_top_dist_def in_range_def
  by (intro unat_dist) (simp_all add: word_less_nat_alt)

lemma dist_formula:
  assumes "in_range s"
  shows "unat (log_top_dist s) =
         (unat (log_top s) + unat (log_size s) - unat (selected s)) mod unat (log_size s)"
proof -
  from assms have r: "unat (log_top s) < unat (log_size s)"
    "unat (selected s) < unat (log_size s)" "unat (log_size s) < 2 ^ 63"
    by (simp_all add: in_range_nat)
  have c: "unat (log_top s + log_size s) = unat (log_top s) + unat (log_size s)"
    using r by (intro unat_plus_small) simp
  have "selected s \<le> log_top s + log_size s" using r c by (simp add: word_le_nat_alt)
  then have "unat (log_top s + log_size s - selected s) =
             unat (log_top s) + unat (log_size s) - unat (selected s)"
    by (simp add: unat_sub c)
  then show ?thesis by (simp only: log_top_dist_def unat_mod)
qed

lemma history_ok_nat:
  "history_ok s =
     (in_range s \<and> 1 \<le> unat (used_size s) \<and> unat (log_top_dist s) \<le> unat (used_size s))"
  by (simp add: history_ok_def word_le_nat_alt)

lemma push_keeps_history:
  assumes "in_range s" and "undo_log_push s = Inr s'"
  shows "history_ok s'"
proof -
  note p = push_indices [OF assms(2)]
  from assms(1) have r: "0 < unat (log_size s)" "unat (log_size s) < 2 ^ 63"
    "unat (log_top s) < unat (log_size s)" "unat (used_size s) \<le> unat (log_size s)"
    by (simp_all add: in_range_nat)
  from assms(1) have w: "log_top s < log_size s" "used_size s \<le> log_size s"
    by (simp_all add: in_range_def)
  have t: "unat (log_top s') =
           (if unat (log_top s) + 1 = unat (log_size s) then 0 else unat (log_top s) + 1)"
    using unat_next [OF w(1)] p(3) by simp
  have u: "unat (used_size s') =
           (if unat (used_size s) < unat (log_size s) then unat (used_size s) + 1
            else unat (used_size s))"
  proof (cases "used_size s < log_size s")
    case True
    with p(4) unat_inc [OF True] show ?thesis by (simp add: word_less_nat_alt)
  next
    case False
    with p(4) show ?thesis by (simp add: word_less_nat_alt)
  qed
  have sel: "unat (selected s') = unat (log_top s)" using p(2) by simp
  have ir: "in_range s'"
    unfolding in_range_nat using r t u sel p(1) by (simp split: if_splits)
  have "1 \<le> unat (used_size s')" using u r by (simp split: if_splits)
  moreover have "unat (log_top_dist s') \<le> unat (used_size s')"
    unfolding dist_nat [OF ir] sel t u p(1) using r by (auto split: if_splits)
  ultimately show ?thesis using ir by (simp add: history_ok_nat)
qed

lemma push_dist_le:
  assumes "in_range s" and "undo_log_push s = Inr s'"
  shows "unat (log_top_dist s') \<le> 1"
proof -
  note p = push_indices [OF assms(2)]
  from assms(1) have r: "unat (log_top s) < unat (log_size s)" by (simp add: in_range_nat)
  from assms(1) have w: "log_top s < log_size s" by (simp add: in_range_def)
  have t: "unat (log_top s') =
           (if unat (log_top s) + 1 = unat (log_size s) then 0 else unat (log_top s) + 1)"
    using unat_next [OF w] p(3) by simp
  from push_keeps_history [OF assms] have ir': "in_range s'" by (simp add: history_ok_def)
  show ?thesis
    unfolding dist_nat [OF ir'] t p(1) p(2) using r by (auto split: if_splits)
qed

lemma copy_back_keeps_history:
  assumes "history_ok s" and "log_top_dist s < used_size s"
    and "undo_log_copy s (- 1) = Inr s'"
  shows "history_ok s'"
proof -
  note c = copy_indices [OF assms(3)]
  from assms(1) have ir: "in_range s" by (simp add: history_ok_def)
  then have r: "0 < unat (log_size s)" "unat (log_size s) < 2 ^ 63"
    "unat (log_top s) < unat (log_size s)"
    "unat (selected s) < unat (log_size s)" "unat (used_size s) \<le> unat (log_size s)"
    by (simp_all add: in_range_nat)
  from ir have w: "selected s < log_size s" by (simp add: in_range_def)
  have sel: "unat (selected s') =
             (if unat (selected s) = 0 then unat (log_size s) - 1 else unat (selected s) - 1)"
    using unat_prev [OF w r(2)] c(4) by simp
  have ir': "in_range s'"
    unfolding in_range_nat using r sel c by (simp split: if_splits)
  from assms(2) have "unat (log_top_dist s) < unat (used_size s)"
    by (simp add: word_less_nat_alt)
  then have "unat (log_top_dist s') \<le> unat (used_size s')"
    unfolding dist_nat [OF ir'] dist_nat [OF ir] sel c(1) c(2) c(3) using r
    by (auto split: if_splits)
  moreover have "1 \<le> unat (used_size s')" using assms(1) c(3) by (simp add: history_ok_nat)
  ultimately show ?thesis using ir' by (simp add: history_ok_nat)
qed

lemma copy_forth_keeps_history:
  assumes "history_ok s" and "1 \<le> log_top_dist s"
    and "undo_log_copy s 1 = Inr s'"
  shows "history_ok s'" and "unat (log_top_dist s') = unat (log_top_dist s) - 1"
proof -
  note c = copy_indices [OF assms(3)]
  from assms(1) have ir: "in_range s" by (simp add: history_ok_def)
  then have r: "0 < unat (log_size s)" "unat (log_size s) < 2 ^ 63"
    "unat (log_top s) < unat (log_size s)"
    "unat (selected s) < unat (log_size s)" "unat (used_size s) \<le> unat (log_size s)"
    by (simp_all add: in_range_nat)
  from ir have w: "selected s < log_size s" by (simp add: in_range_def)
  have sel: "unat (selected s') =
             (if unat (selected s) + 1 = unat (log_size s) then 0 else unat (selected s) + 1)"
    using unat_succ [OF w r(2)] c(4) by simp
  have ir': "in_range s'"
    unfolding in_range_nat using r sel c by (simp split: if_splits)
  from assms(2) have d1: "1 \<le> unat (log_top_dist s)"
    by (simp add: word_le_nat_alt)
  from assms(1) have du: "unat (log_top_dist s) \<le> unat (used_size s)"
    by (simp add: history_ok_nat)
  show e: "unat (log_top_dist s') = unat (log_top_dist s) - 1"
    using d1 unfolding dist_nat [OF ir'] dist_nat [OF ir] sel c(1) c(2) c(3) using r
    by (auto split: if_splits)
  have "1 \<le> unat (used_size s')" using assms(1) c(3) by (simp add: history_ok_nat)
  with e du c(3) ir' show "history_ok s'" by (simp add: history_ok_nat)
qed

lemma prune_keeps_history:
  assumes "history_ok s" and "1 < log_top_dist s"
    and "prune (log_top_dist s) s = Inr s'"
  shows "history_ok s'" and "unat (log_top_dist s') = 1"
    and "unat (used_size s') = unat (used_size s) - (unat (log_top_dist s) - 1)"
proof -
  note p = prune_indices [OF assms(3)]
  from assms(1) have ir: "in_range s" by (simp add: history_ok_def)
  then have r: "0 < unat (log_size s)" "unat (log_size s) < 2 ^ 63"
    "unat (log_top s) < unat (log_size s)"
    "unat (selected s) < unat (log_size s)" "unat (used_size s) \<le> unat (log_size s)"
    by (simp_all add: in_range_nat)
  from ir have w: "selected s < log_size s" by (simp add: in_range_def)
  from assms(2) have d1: "1 < unat (log_top_dist s)" "1 \<le> log_top_dist s"
    by (simp_all add: word_less_nat_alt word_le_nat_alt)
  from assms(1) have du: "unat (log_top_dist s) \<le> unat (used_size s)"
    "log_top_dist s \<le> used_size s"
    by (simp_all add: history_ok_def word_le_nat_alt)
  have t: "unat (log_top s') =
           (if unat (selected s) + 1 = unat (log_size s) then 0 else unat (selected s) + 1)"
    using unat_next [OF w] p(3) by simp
  show u: "unat (used_size s') = unat (used_size s) - (unat (log_top_dist s) - 1)"
    using unat_shrink [OF d1(2) du(2)] p(4) by simp
  have ir': "in_range s'"
    unfolding in_range_nat using r t u p by (simp split: if_splits)
  show e: "unat (log_top_dist s') = 1"
    using d1(1) unfolding dist_nat [OF ir'] dist_nat [OF ir] t p(1) p(2) using r
    by (auto split: if_splits)
  from u d1 du have "1 \<le> unat (used_size s')" by simp
  with e ir' show "history_ok s'" by (simp add: history_ok_nat)
qed

subsection \<open>A frame keeps the history well-formed\<close>

lemma bind_fault_Inr:
  assumes "bind_fault m f = Inr y"
  obtains x where "m = Inr x" and "f x = Inr y"
  using assms by (cases m) (simp_all add: bind_fault_def)

lemma go_forwards_keeps_history:
  assumes "history_ok s" and "go_forwards (log_top_dist s) inp s = Inr s3"
  shows "history_ok s3" and "unat (log_top_dist s3) \<le> unat (log_top_dist s)"
proof -
  have "history_ok s3 \<and> unat (log_top_dist s3) \<le> unat (log_top_dist s)"
  proof (cases "1 < log_top_dist s")
    case False
    with assms show ?thesis by (simp add: go_forwards_def)
  next
    case True
    with assms(2) obtain s2 where
      s2: "(if left_pressed inp then prune (log_top_dist s) s else Inr s) = Inr s2"
      and s3: "(if key_w inp \<or> extra_pressed inp then undo_log_copy s2 1 else Inr s2) = Inr s3"
      by (auto simp add: go_forwards_def elim: bind_fault_Inr)
    from True have d1: "1 < unat (log_top_dist s)" by (simp add: word_less_nat_alt)
    have h2: "history_ok s2 \<and> 1 \<le> unat (log_top_dist s2) \<and>
              unat (log_top_dist s2) \<le> unat (log_top_dist s)"
    proof (cases "left_pressed inp")
      case True
      with s2 have "prune (log_top_dist s) s = Inr s2" by simp
      from prune_keeps_history(1,2) [OF assms(1) \<open>1 < log_top_dist s\<close> this] d1
      show ?thesis by simp
    next
      case False
      with s2 assms(1) d1 show ?thesis by simp
    qed
    show ?thesis
    proof (cases "key_w inp \<or> extra_pressed inp")
      case True
      with s3 have c: "undo_log_copy s2 1 = Inr s3" by simp
      from h2 have "1 \<le> log_top_dist s2" by (simp add: word_le_nat_alt)
      from copy_forth_keeps_history [OF _ this c] h2 show ?thesis by auto
    next
      case False
      with s3 h2 show ?thesis by simp
    qed
  qed
  then show "history_ok s3" and "unat (log_top_dist s3) \<le> unat (log_top_dist s)"
    by simp_all
qed

lemma go_backwards_keeps_history:
  assumes "history_ok s" and "unat (log_top_dist s) \<le> unat d"
    and "go_backwards d inp s = Inr s4"
  shows "history_ok s4"
proof (cases "d < used_size s \<and> (key_q inp \<or> side_pressed inp)")
  case True
  with assms(3) have c: "undo_log_copy s (- 1) = Inr s4" by (simp add: go_backwards_def)
  from True assms(2) have "log_top_dist s < used_size s" by (simp add: word_less_nat_alt)
  from copy_back_keeps_history [OF assms(1) this c] show ?thesis .
next
  case False
  with assms show ?thesis by (auto simp add: go_backwards_def)
qed

lemma on_release_keeps_history:
  assumes "history_ok s" and "on_release inp s = Inr s5"
  shows "history_ok s5"
proof (cases "left_released inp")
  case True
  with assms(2) have "undo_log_push s = Inr s5" by (simp add: on_release_def)
  with assms(1) show ?thesis by (intro push_keeps_history [of s]) (simp_all add: history_ok_def)
next
  case False
  with assms show ?thesis by (simp add: on_release_def)
qed

lemma drawing_keeps_history: "history_ok (drawing inp s) = history_ok s"
  by (simp add: drawing_def history_ok_def in_range_def log_top_dist_def)

lemma clear_keeps_history:
  assumes "in_range s" and "clear_framebuffer s blank = Inr s1"
  shows "history_ok s1"
  using assms by (intro push_keeps_history [of "s\<lparr>framebuffer := blank\<rparr>"])
    (simp_all add: clear_framebuffer_def in_range_def)

lemma frame_keeps_history:
  assumes "history_ok s" and "frame blank inp s = Inr s'"
  shows "history_ok s'"
proof -
  from assms(2) obtain s1 where
    s1: "(if key_c inp then clear_framebuffer s blank else Inr s) = Inr s1"
    and r1: "(if log_size s1 = 0 then Inl Division_By_Zero
              else bind_fault (go_forwards (log_top_dist s1) inp s1)
                (\<lambda>s3. bind_fault (go_backwards (log_top_dist s1) inp s3)
                   (\<lambda>s4. bind_fault (on_release inp s4) (\<lambda>s5. Inr (drawing inp s5))))) = Inr s'"
    unfolding frame_def by (rule bind_fault_Inr)
  have h1: "history_ok s1"
  proof (cases "key_c inp")
    case True
    with s1 have "clear_framebuffer s blank = Inr s1" by simp
    moreover from assms(1) have "in_range s" by (simp add: history_ok_def)
    ultimately show ?thesis by (intro clear_keeps_history [of s blank s1])
  next
    case False
    with s1 assms(1) show ?thesis by simp
  qed
  from r1 have r1': "bind_fault (go_forwards (log_top_dist s1) inp s1)
                (\<lambda>s3. bind_fault (go_backwards (log_top_dist s1) inp s3)
                   (\<lambda>s4. bind_fault (on_release inp s4) (\<lambda>s5. Inr (drawing inp s5)))) = Inr s'"
    by (simp split: if_splits)
  then obtain s3 where s3: "go_forwards (log_top_dist s1) inp s1 = Inr s3"
    and r3: "bind_fault (go_backwards (log_top_dist s1) inp s3)
                   (\<lambda>s4. bind_fault (on_release inp s4) (\<lambda>s5. Inr (drawing inp s5))) = Inr s'"
    by (rule bind_fault_Inr)
  from r3 obtain s4 where s4: "go_backwards (log_top_dist s1) inp s3 = Inr s4"
    and r4: "bind_fault (on_release inp s4) (\<lambda>s5. Inr (drawing inp s5)) = Inr s'"
    by (rule bind_fault_Inr)
  from r4 obtain s5 where s5: "on_release inp s4 = Inr s5" and r5: "Inr (drawing inp s5) = (Inr s' :: fault + 'a world)"
    by (rule bind_fault_Inr)
  note h3 = go_forwards_keeps_history [OF h1 s3]
  have h4: "history_ok s4" by (rule go_backwards_keeps_history [OF h3 s4])
  have h5: "history_ok s5" by (rule on_release_keeps_history [OF h4 s5])
  from r5 have "s' = drawing inp s5" by simp
  with h5 show ?thesis by (simp add: drawing_keeps_history)
qed

lemma startup_nonzero:
  assumes "startup malloc n blank = Inr s"
  shows "0 < n"
proof -
  have "n \<noteq> 0"
  proof
    assume "n = 0"
    with assms show False
      by (simp add: startup_def clear_framebuffer_def undo_log_push_def init_world_def
          bind_fault_def unload_slot_def split: if_splits)
  qed
  then show ?thesis by (simp add: word_neq_0_conv)
qed

lemma startup_history:
  assumes "n < 2 ^ 63" and "startup malloc n blank = Inr s"
  shows "history_ok s"
proof -
  let ?s0 = "init_world (block_slots malloc n) n blank"
  from startup_nonzero [OF assms(2)] assms(1) have "in_range ?s0"
    by (simp add: in_range_def init_world_def)
  moreover from assms(2) have "clear_framebuffer ?s0 blank = Inr s"
    by (simp add: startup_def)
  ultimately show ?thesis by (rule clear_keeps_history)
qed

lemma reachable_history:
  assumes "n < 2 ^ 63" and "reachable malloc n blank s"
  shows "history_ok s"
  using assms(2)
proof (induction rule: reachable.induct)
  case (start s)
  with assms(1) show ?case by (intro startup_history)
next
  case (step s inp s')
  then show ?case by (intro frame_keeps_history [of s blank inp s'])
qed

subsection \<open>Pushes into an empty log\<close>

lemma pushed_step:
  assumes "pushed ys s"
  shows "\<exists>s'. undo_log_push (s\<lparr>framebuffer := x\<rparr>) = Inr s' \<and> pushed (ys @ [x]) s'
           \<and> log_size s' = log_size s"
proof -
  let ?n = "log_size s" and ?N = "unat (log_size s)" and ?m = "length ys"
  from assms have n0: "0 < ?n" and len: "length (images s) = ?N"
    and top: "unat (log_top s) = ?m mod ?N"
    and used: "unat (used_size s) = min ?m ?N"
    and unl: "unloaded s = take (?m - ?N) ys"
    and slots: "\<And>i. i < ?m \<Longrightarrow> ?m \<le> i + ?N \<Longrightarrow> images s ! (i mod ?N) = Loaded (ys ! i)"
    by (simp_all add: pushed_def)
  from n0 have N0: "0 < ?N" by (simp add: word_less_nat_alt)
  have topN: "unat (log_top s) < ?N" using top N0 by simp
  then have toplt: "log_top s < ?n" by (simp add: word_less_nat_alt)
  have ule: "used_size s \<le> ?n" using used by (simp add: word_le_nat_alt)
  have nz: "?n \<noteq> 0" using n0 by simp
  have top': "unat ((log_top s + 1) mod ?n) = (?m + 1) mod ?N"
    using unat_next_mod [OF toplt] top by (simp add: mod_Suc_eq)
  show ?thesis
  proof (cases "used_size s = ?n")
    case True
    then have mN: "?N \<le> ?m" using used by simp
    then have old: "images s ! (?m mod ?N) = Loaded (ys ! (?m - ?N))"
      using slots [of "?m - ?N"] N0 by (simp add: le_mod_geq [symmetric])
    let ?s' = "s\<lparr>images := (images s)[?m mod ?N := Loaded x], selected := log_top s,
                 log_top := (log_top s + 1) mod ?n, framebuffer := x,
                 unloaded := unloaded s @ [ys ! (?m - ?N)]\<rparr>"
    have push: "undo_log_push (s\<lparr>framebuffer := x\<rparr>) = Inr ?s'"
      using True topN len top old nz
      by (simp add: undo_log_push_def unload_slot_def bind_fault_def)
    have "pushed (ys @ [x]) ?s'"
      unfolding pushed_def
    proof (intro conjI allI impI)
      show "unloaded ?s' = take (length (ys @ [x]) - unat (log_size ?s')) (ys @ [x])"
        using mN unl N0 by (simp add: Suc_diff_le take_Suc_conv_app_nth)
      fix i assume i: "i < length (ys @ [x])" "length (ys @ [x]) \<le> i + unat (log_size ?s')"
      show "images ?s' ! (i mod unat (log_size ?s')) = Loaded ((ys @ [x]) ! i)"
      proof (cases "i = ?m")
        case True
        then show ?thesis using len N0 by simp
      next
        case False
        with i have a: "i < ?m" "?m \<le> i + ?N" "?m < i + ?N" by simp_all
        have "i mod ?N \<noteq> ?m mod ?N"
        proof
          assume e: "i mod ?N = ?m mod ?N"
          then have "(?m - i) mod ?N = 0" using a by (metis less_imp_le_nat mod_eq_dvd_iff_nat dvd_imp_mod_0)
          moreover have "0 < ?m - i" "?m - i < ?N" using a by simp_all
          ultimately show False by simp
        qed
        then show ?thesis using slots [OF a(1) a(2)] a by (simp add: nth_append)
      qed
    qed (use n0 len top' used True in \<open>simp_all\<close>)
    with push show ?thesis by auto
  next
    case False
    with ule have ult: "used_size s < ?n" by simp
    then have mN: "?m < ?N" using used by (simp add: word_less_nat_alt)
    then have mm: "?m mod ?N = ?m" by simp
    let ?s' = "s\<lparr>images := (images s)[?m := Loaded x], selected := log_top s,
                 log_top := (log_top s + 1) mod ?n, used_size := used_size s + 1,
                 framebuffer := x\<rparr>"
    have push: "undo_log_push (s\<lparr>framebuffer := x\<rparr>) = Inr ?s'"
      using False ule ult topN len top nz mm
      by (simp add: undo_log_push_def bind_fault_def)
    have "pushed (ys @ [x]) ?s'"
      unfolding pushed_def
    proof (intro conjI allI impI)
      show "unat (used_size ?s') = min (length (ys @ [x])) (unat (log_size ?s'))"
        using unat_inc [OF ult] used mN by simp
      fix i assume i: "i < length (ys @ [x])" "length (ys @ [x]) \<le> i + unat (log_size ?s')"
      show "images ?s' ! (i mod unat (log_size ?s')) = Loaded ((ys @ [x]) ! i)"
      proof (cases "i = ?m")
        case True
        then show ?thesis using len mN by simp
      next
        case False
        with i have a: "i < ?m" by simp
        then show ?thesis using slots [of i] mN by (simp add: nth_append)
      qed
    qed (use n0 len top' unl mN in \<open>simp_all\<close>)
    with push show ?thesis by auto
  qed
qed

lemma pushes_pushed:
  "pushed ys s \<Longrightarrow> \<exists>s'. pushes xs s = Inr s' \<and> pushed (ys @ xs) s' \<and> log_size s' = log_size s"
proof (induction xs arbitrary: ys s)
  case Nil
  then show ?case by simp
next
  case (Cons x xs)
  from pushed_step [OF Cons.prems, of x] obtain s1 where
    s1: "undo_log_push (s\<lparr>framebuffer := x\<rparr>) = Inr s1" "pushed (ys @ [x]) s1" "log_size s1 = log_size s"
    by blast
  from Cons.IH [OF s1(2)] obtain s' where
    "pushes xs s1 = Inr s'" "pushed ((ys @ [x]) @ xs) s'" "log_size s' = log_size s1" by blast
  with s1 show ?case by (simp add: bind_fault_def)
qed

lemma pushed_init: "0 < n \<Longrightarrow> pushed [] (init_world (unat n) n fb)"
  by (simp add: pushed_def init_world_def)

section \<open>The slots in use hold images\<close>

lemma slots_ok_iff:
  "slots_ok s =
     (\<forall>j < length (images s). behind s j < unat (used_size s) \<longrightarrow> is_loaded (images s ! j))"
  by (auto simp add: slots_ok_def list_all_iff)

lemma is_loaded_iff: "is_loaded x = (\<exists>y. x = Loaded y)"
  by (cases x) (simp_all add: is_loaded_def)

lemma behind_if:
  assumes "in_range s" and "j < unat (log_size s)"
  shows "behind s j =
         (if j < unat (log_top s) then unat (log_top s) - 1 - j
          else unat (log_top s) + unat (log_size s) - 1 - j)"
proof -
  from assms(1) have r: "unat (log_top s) < unat (log_size s)" by (simp add: in_range_nat)
  show ?thesis
  proof (cases "j < unat (log_top s)")
    case True
    then have "unat (log_top s) + unat (log_size s) - 1 - j =
               (unat (log_top s) - 1 - j) + unat (log_size s)" by simp
    moreover have "unat (log_top s) - 1 - j < unat (log_size s)" using r by simp
    ultimately show ?thesis using True unfolding behind_def by (simp only: mod_wrap if_True)
  next
    case False
    with r assms(2) show ?thesis by (simp add: behind_def)
  qed
qed

lemma push_full:
  assumes "used_size s = log_size s" and "log_size s \<noteq> 0"
    and "unat (log_top s) < length (images s)"
    and "images s ! unat (log_top s) = Loaded y"
  shows "undo_log_push s =
         Inr (s\<lparr>images := (images s)[unat (log_top s) := Loaded (framebuffer s)],
                selected := log_top s, log_top := (log_top s + 1) mod log_size s,
                unloaded := unloaded s @ [y]\<rparr>)"
  using assms by (simp add: undo_log_push_def unload_slot_def bind_fault_def)

lemma push_room:
  assumes "used_size s < log_size s" and "unat (log_top s) < length (images s)"
  shows "undo_log_push s =
         Inr (s\<lparr>images := (images s)[unat (log_top s) := Loaded (framebuffer s)],
                selected := log_top s, log_top := (log_top s + 1) mod log_size s,
                used_size := used_size s + 1\<rparr>)"
proof -
  from assms(1) have "log_size s \<noteq> 0" "used_size s \<noteq> log_size s" "used_size s \<le> log_size s"
    by auto
  with assms show ?thesis by (simp add: undo_log_push_def bind_fault_def)
qed

lemma behind_top:
  assumes "in_range s"
  shows "behind s (unat (log_top s)) = unat (log_size s) - 1"
proof -
  from assms have "unat (log_top s) < unat (log_size s)" by (simp add: in_range_nat)
  from behind_if [OF assms this] show ?thesis by simp
qed

lemma slot_top_loaded:
  assumes "in_range s" and "allocated s" and "slots_ok s" and "used_size s = log_size s"
  shows "\<exists>y. images s ! unat (log_top s) = Loaded y"
proof -
  from assms(1,2) have r: "unat (log_top s) < length (images s)" "0 < unat (log_size s)"
    by (simp_all add: in_range_nat allocated_def)
  with behind_top [OF assms(1)] assms(4)
  have "behind s (unat (log_top s)) < unat (used_size s)" by simp
  with assms(3) r(1) show ?thesis by (simp add: slots_ok_iff is_loaded_iff)
qed

lemma push_ok:
  assumes "in_range s" and "allocated s" and "slots_ok s"
  shows "\<exists>s'. undo_log_push s = Inr s' \<and> log_ok s' \<and>
           images s' = (images s)[unat (log_top s) := Loaded (framebuffer s)]"
proof -
  from assms(1,2) have r: "0 < unat (log_size s)" "unat (log_size s) < 2 ^ 63"
    "length (images s) = unat (log_size s)" "unat (log_top s) < unat (log_size s)"
    "unat (used_size s) \<le> unat (log_size s)"
    by (simp_all add: in_range_nat allocated_def)
  from assms(1) have w: "log_top s < log_size s" "used_size s \<le> log_size s" "log_size s \<noteq> 0"
    by (auto simp add: in_range_def)
  have "\<exists>s'. undo_log_push s = Inr s' \<and>
           images s' = (images s)[unat (log_top s) := Loaded (framebuffer s)]"
  proof (cases "used_size s = log_size s")
    case True
    from slot_top_loaded [OF assms True] obtain y where
      "images s ! unat (log_top s) = Loaded y" ..
    from push_full [OF True w(3) _ this] r show ?thesis by simp
  next
    case False
    with w(2) have "used_size s < log_size s" by simp
    from push_room [OF this] r show ?thesis by simp
  qed
  then obtain s' where p: "undo_log_push s = Inr s'"
    and im: "images s' = (images s)[unat (log_top s) := Loaded (framebuffer s)]" by blast
  have h: "history_ok s'" by (rule push_keeps_history [OF assms(1) p])
  then have ir: "in_range s'" by (simp add: history_ok_def)
  note q = push_indices [OF p]
  have t: "unat (log_top s') =
           (if unat (log_top s) + 1 = unat (log_size s) then 0 else unat (log_top s) + 1)"
    using unat_next [OF w(1)] q(3) by simp
  have u: "unat (used_size s') =
           (if unat (used_size s) < unat (log_size s) then unat (used_size s) + 1
            else unat (used_size s))"
  proof (cases "used_size s < log_size s")
    case True
    with q(4) unat_inc [OF True] show ?thesis by (simp add: word_less_nat_alt)
  next
    case False
    with q(4) show ?thesis by (simp add: word_less_nat_alt)
  qed
  have "slots_ok s'"
    unfolding slots_ok_iff
  proof (intro allI impI)
    fix j assume j: "j < length (images s')" and b: "behind s' j < unat (used_size s')"
    from j im r have jN: "j < unat (log_size s)" by simp
    show "is_loaded (images s' ! j)"
    proof (cases "j = unat (log_top s)")
      case True
      with im r show ?thesis by (simp add: is_loaded_def)
    next
      case False
      from jN q(1) have "j < unat (log_size s')" by simp
      note b' = behind_if [OF ir this]
      from b have "behind s j < unat (used_size s)"
        unfolding b' behind_if [OF assms(1) jN] t u q(1) using False r jN
        by (auto split: if_splits)
      with assms(3) jN r have "is_loaded (images s ! j)" by (simp add: slots_ok_iff)
      with False im show ?thesis by simp
    qed
  qed
  moreover have "allocated s'" using q(1) q(5) r by (simp add: allocated_def)
  ultimately show ?thesis using h p im by (auto simp add: log_ok_def)
qed

lemma slots_ok_cong:
  assumes "images s' = images s" "log_top s' = log_top s" "log_size s' = log_size s"
    "used_size s' = used_size s"
  shows "slots_ok s' = slots_ok s"
  using assms by (simp add: slots_ok_def behind_def)

lemma behind_prev:
  assumes "in_range s"
  shows "behind s (if unat (selected s) = 0 then unat (log_size s) - 1 else unat (selected s) - 1)
         = unat (log_top_dist s)"
proof -
  from assms have r: "0 < unat (log_size s)" "unat (log_top s) < unat (log_size s)"
    "unat (selected s) < unat (log_size s)"
    by (simp_all add: in_range_nat)
  let ?p = "if unat (selected s) = 0 then unat (log_size s) - 1 else unat (selected s) - 1"
  have "?p < unat (log_size s)" using r by auto
  from behind_if [OF assms this] show ?thesis
    unfolding dist_nat [OF assms] using r by (auto split: if_splits)
qed

lemma behind_succ:
  assumes "in_range s" and "2 \<le> unat (log_top_dist s)"
  shows "behind s (if unat (selected s) + 1 = unat (log_size s) then 0 else unat (selected s) + 1)
         = unat (log_top_dist s) - 2"
proof -
  from assms have r: "0 < unat (log_size s)" "unat (log_top s) < unat (log_size s)"
    "unat (selected s) < unat (log_size s)"
    by (simp_all add: in_range_nat)
  let ?p = "if unat (selected s) + 1 = unat (log_size s) then 0 else unat (selected s) + 1"
  have "?p < unat (log_size s)" using r by auto
  from behind_if [OF assms(1) this] assms(2) show ?thesis
    unfolding dist_nat [OF assms(1)] using r by (auto split: if_splits)
qed

lemma copy_Inr:
  assumes "log_size s \<noteq> 0"
    and "unat ((selected s + log_size s + word_of_int off) mod log_size s) < length (images s)"
    and "images s ! unat ((selected s + log_size s + word_of_int off) mod log_size s) = Loaded y"
  shows "undo_log_copy s off =
         Inr (s\<lparr>selected := (selected s + log_size s + word_of_int off) mod log_size s,
                framebuffer := y\<rparr>)"
  using assms by (simp add: undo_log_copy_def Let_def)

lemma copy_back_ok:
  assumes "log_ok s" and "log_top_dist s < used_size s"
  shows "\<exists>s' y. undo_log_copy s (- 1) = Inr s' \<and> log_ok s' \<and>
           images s ! unat (selected s') = Loaded y \<and> framebuffer s' = y"
proof -
  from assms(1) have h: "history_ok s" and al: "allocated s" and sl: "slots_ok s"
    by (simp_all add: log_ok_def)
  from h have ir: "in_range s" by (simp add: history_ok_def)
  with al have r: "0 < unat (log_size s)" "unat (log_size s) < 2 ^ 63"
    "length (images s) = unat (log_size s)" "unat (selected s) < unat (log_size s)"
    by (simp_all add: in_range_nat allocated_def)
  from ir have w: "selected s < log_size s" "log_size s \<noteq> 0" by (auto simp add: in_range_def)
  let ?sel = "(selected s + log_size s + word_of_int (- 1)) mod log_size s"
  have p: "unat ?sel = (if unat (selected s) = 0 then unat (log_size s) - 1 else unat (selected s) - 1)"
    by (rule unat_prev [OF w(1) r(2)])
  have lt: "unat ?sel < length (images s)" using p r by (auto split: if_splits)
  from assms(2) have "behind s (unat ?sel) < unat (used_size s)"
    unfolding p behind_prev [OF ir] by (simp add: word_less_nat_alt)
  with sl lt obtain y where y: "images s ! unat ?sel = Loaded y"
    by (auto simp add: slots_ok_iff is_loaded_iff)
  let ?s' = "s\<lparr>selected := ?sel, framebuffer := y\<rparr>"
  have c: "undo_log_copy s (- 1) = Inr ?s'" by (rule copy_Inr [OF w(2) lt y])
  have "history_ok ?s'" by (rule copy_back_keeps_history [OF h assms(2) c])
  moreover have "slots_ok ?s'" using sl slots_ok_cong [of ?s' s] by simp
  moreover have "allocated ?s'" using al by (simp add: allocated_def)
  ultimately have "log_ok ?s'" by (simp add: log_ok_def)
  with c y show ?thesis by (intro exI [of _ ?s'] exI [of _ y]) simp
qed

lemma copy_forth_ok:
  assumes "log_ok s" and "1 < log_top_dist s"
  shows "\<exists>s' y. undo_log_copy s 1 = Inr s' \<and> log_ok s' \<and>
           images s ! unat (selected s') = Loaded y \<and> framebuffer s' = y"
proof -
  from assms(1) have h: "history_ok s" and al: "allocated s" and sl: "slots_ok s"
    by (simp_all add: log_ok_def)
  from h have ir: "in_range s" by (simp add: history_ok_def)
  with al have r: "0 < unat (log_size s)" "unat (log_size s) < 2 ^ 63"
    "length (images s) = unat (log_size s)" "unat (selected s) < unat (log_size s)"
    by (simp_all add: in_range_nat allocated_def)
  from ir have w: "selected s < log_size s" "log_size s \<noteq> 0" by (auto simp add: in_range_def)
  from assms(2) have d: "2 \<le> unat (log_top_dist s)" "1 \<le> log_top_dist s"
    by (simp_all add: word_less_nat_alt word_le_nat_alt)
  from h have du: "unat (log_top_dist s) \<le> unat (used_size s)" by (simp add: history_ok_nat)
  let ?sel = "(selected s + log_size s + word_of_int 1) mod log_size s"
  have p: "unat ?sel = (if unat (selected s) + 1 = unat (log_size s) then 0 else unat (selected s) + 1)"
    by (rule unat_succ [OF w(1) r(2)])
  have lt: "unat ?sel < length (images s)" using p r by (auto split: if_splits)
  have "behind s (unat ?sel) < unat (used_size s)"
    unfolding p behind_succ [OF ir d(1)] using d(1) du by simp
  with sl lt obtain y where y: "images s ! unat ?sel = Loaded y"
    by (auto simp add: slots_ok_iff is_loaded_iff)
  let ?s' = "s\<lparr>selected := ?sel, framebuffer := y\<rparr>"
  have c: "undo_log_copy s 1 = Inr ?s'" by (rule copy_Inr [OF w(2) lt y])
  have "history_ok ?s'" by (rule copy_forth_keeps_history(1) [OF h d(2) c])
  moreover have "slots_ok ?s'" using sl slots_ok_cong [of ?s' s] by simp
  moreover have "allocated ?s'" using al by (simp add: allocated_def)
  ultimately have "log_ok ?s'" by (simp add: log_ok_def)
  with c y show ?thesis by (intro exI [of _ ?s'] exI [of _ y]) simp
qed

subsection \<open>Pruning\<close>

lemma unload_Inr:
  assumes "unat i < length (images s)" and "images s ! unat i = Loaded y"
  shows "unload_slot i s =
         Inr (s\<lparr>images := (images s)[unat i := Unloaded], unloaded := unloaded s @ [y]\<rparr>)"
  using assms by (simp add: unload_slot_def)

lemma release_loop_ok:
  assumes "in_range s" and "allocated s" and "i < log_size s"
    and "cnt = (if unat i \<le> unat (log_top s) then unat (log_top s) - unat i
                else unat (log_top s) + unat (log_size s) - unat i)"
    and "\<forall>j < unat (log_size s). behind s j < cnt \<longrightarrow> is_loaded (images s ! j)"
  shows "\<exists>s'. release_loop i s = Inr s' \<and>
           (\<forall>j < unat (log_size s).
              (cnt \<le> behind s j \<longrightarrow> images s' ! j = images s ! j) \<and>
              (behind s j < cnt \<longrightarrow> images s' ! j = Unloaded))"
  using assms
proof (induction cnt arbitrary: i s)
  case 0
  from "0.prems"(1,3) have r: "unat (log_top s) < unat (log_size s)" "unat i < unat (log_size s)"
    by (simp_all add: in_range_nat word_less_nat_alt)
  with "0.prems"(4) have "unat i = unat (log_top s)" by (auto split: if_splits)
  then have "i = log_top s" by (simp add: word_unat_eq_iff)
  then have "release_loop i s = Inr s" by (simp add: release_loop.simps [of i s])
  then show ?case by simp
next
  case (Suc c)
  note ir = Suc.prems(1)
  from ir Suc.prems(2,3) have r: "0 < unat (log_size s)" "unat (log_top s) < unat (log_size s)"
    "unat i < unat (log_size s)" "length (images s) = unat (log_size s)"
    by (simp_all add: in_range_nat allocated_def word_less_nat_alt)
  from Suc.prems(4) r have ne: "unat i \<noteq> unat (log_top s)" by (auto split: if_splits)
  then have ne': "i \<noteq> log_top s" by auto
  have bi: "behind s (unat i) = c"
    unfolding behind_if [OF ir r(3)] using Suc.prems(4) r ne by (auto split: if_splits)
  with Suc.prems(5) r obtain y where y: "images s ! unat i = Loaded y"
    by (auto simp add: is_loaded_iff)
  let ?s1 = "s\<lparr>images := (images s)[unat i := Unloaded], unloaded := unloaded s @ [y]\<rparr>"
  have u: "unload_slot i s = Inr ?s1" using r y by (intro unload_Inr) simp_all
  let ?i' = "(i + 1) mod log_size s"
  have nz: "log_size s \<noteq> 0" using r by auto
  have step: "release_loop i s = release_loop ?i' ?s1"
    using ne' u nz by (simp add: release_loop.simps [of i s])
  have i': "unat ?i' = (if unat i + 1 = unat (log_size s) then 0 else unat i + 1)"
    by (rule unat_next [OF Suc.prems(3)])
  have ir1: "in_range ?s1" using ir by (simp add: in_range_def)
  have al1: "allocated ?s1" using Suc.prems(2) by (simp add: allocated_def)
  have lt1: "?i' < log_size ?s1" using i' r by (auto simp add: word_less_nat_alt split: if_splits)
  have c1: "c = (if unat ?i' \<le> unat (log_top ?s1) then unat (log_top ?s1) - unat ?i'
                 else unat (log_top ?s1) + unat (log_size ?s1) - unat ?i')"
    unfolding i' using Suc.prems(4) r ne by (auto split: if_splits)
  have b1: "\<And>j. behind ?s1 j = behind s j" by (simp add: behind_def)
  have pre1: "\<forall>j < unat (log_size ?s1). behind ?s1 j < c \<longrightarrow> is_loaded (images ?s1 ! j)"
  proof (intro allI impI)
    fix j assume j: "j < unat (log_size ?s1)" and b: "behind ?s1 j < c"
    from b bi have "j \<noteq> unat i" by (auto simp add: b1)
    moreover from b have "behind s j < Suc c" by (simp add: b1)
    ultimately show "is_loaded (images ?s1 ! j)" using Suc.prems(5) j by simp
  qed
  from Suc.IH [OF ir1 al1 lt1 c1 pre1] obtain s' where
    s': "release_loop ?i' ?s1 = Inr s'"
    and post: "\<forall>j < unat (log_size ?s1).
                 (c \<le> behind ?s1 j \<longrightarrow> images s' ! j = images ?s1 ! j) \<and>
                 (behind ?s1 j < c \<longrightarrow> images s' ! j = Unloaded)"
    by blast
  have "\<forall>j < unat (log_size s).
          (Suc c \<le> behind s j \<longrightarrow> images s' ! j = images s ! j) \<and>
          (behind s j < Suc c \<longrightarrow> images s' ! j = Unloaded)"
  proof (intro allI impI conjI)
    fix j assume j: "j < unat (log_size s)" and b: "Suc c \<le> behind s j"
    from b bi have "j \<noteq> unat i" by auto
    with post j b show "images s' ! j = images s ! j" by (simp add: b1)
  next
    fix j assume j: "j < unat (log_size s)" and b: "behind s j < Suc c"
    show "images s' ! j = Unloaded"
    proof (cases "behind s j < c")
      case True
      with post j show ?thesis by (simp add: b1)
    next
      case False
      with b have e: "behind s j = c" by simp
      have "j = unat i"
        using e bi unfolding behind_if [OF ir j] behind_if [OF ir r(3)] using r j
        by (auto split: if_splits)
      with post j e r show ?thesis by (simp add: b1)
    qed
  qed
  with step s' show ?case by auto
qed

lemma prune_ok:
  assumes "log_ok s" and "1 < log_top_dist s"
  shows "\<exists>s'. prune (log_top_dist s) s = Inr s' \<and> log_ok s' \<and>
           images s' ! unat (log_top s') = Unloaded"
proof -
  from assms(1) have h: "history_ok s" and al: "allocated s" and sl: "slots_ok s"
    by (simp_all add: log_ok_def)
  from h have ir: "in_range s" by (simp add: history_ok_def)
  with al have r: "0 < unat (log_size s)" "unat (log_size s) < 2 ^ 63"
    "length (images s) = unat (log_size s)" "unat (log_top s) < unat (log_size s)"
    "unat (selected s) < unat (log_size s)" "unat (used_size s) \<le> unat (log_size s)"
    by (simp_all add: in_range_nat allocated_def)
  from ir have w: "selected s < log_size s" "log_size s \<noteq> 0" by (auto simp add: in_range_def)
  from assms(2) have d: "2 \<le> unat (log_top_dist s)" by (simp add: word_less_nat_alt)
  from h have du: "unat (log_top_dist s) \<le> unat (used_size s)" by (simp add: history_ok_nat)
  let ?i = "(selected s + 1) mod log_size s"
  let ?D = "unat (log_top_dist s)"
  have i: "unat ?i = (if unat (selected s) + 1 = unat (log_size s) then 0 else unat (selected s) + 1)"
    by (rule unat_next [OF w(1)])
  have ilt: "?i < log_size s" using i r by (auto simp add: word_less_nat_alt split: if_splits)
  have cnt: "?D - 1 = (if unat ?i \<le> unat (log_top s) then unat (log_top s) - unat ?i
                       else unat (log_top s) + unat (log_size s) - unat ?i)"
    using d unfolding i dist_nat [OF ir] using r by (auto split: if_splits)
  have pre: "\<forall>j < unat (log_size s). behind s j < ?D - 1 \<longrightarrow> is_loaded (images s ! j)"
    using sl du r by (auto simp add: slots_ok_iff)
  from release_loop_ok [OF ir al ilt cnt pre] obtain s1 where
    s1: "release_loop ?i s = Inr s1"
    and post: "\<forall>j < unat (log_size s).
                 (?D - 1 \<le> behind s j \<longrightarrow> images s1 ! j = images s ! j) \<and>
                 (behind s j < ?D - 1 \<longrightarrow> images s1 ! j = Unloaded)"
    by blast
  let ?s' = "s1\<lparr>log_top := (selected s1 + 1) mod log_size s1,
                 used_size := used_size s1 - (log_top_dist s - 1)\<rparr>"
  have p: "prune (log_top_dist s) s = Inr ?s'"
    using s1 by (simp add: prune_def bind_fault_def)
  note k = prune_keeps_history [OF h assms(2) p]
  note q = prune_indices [OF p]
  from k(1) have ir': "in_range ?s'" by (simp add: history_ok_def)
  have t': "unat (log_top ?s') = unat ?i" using q(3) by simp
  have im: "images ?s' = images s1" by simp
  have bi: "behind s (unat ?i) = ?D - 2"
    unfolding i by (rule behind_succ [OF ir d])
  have ilt': "unat ?i < unat (log_size s)" using ilt by (simp add: word_less_nat_alt)
  have "slots_ok ?s'"
    unfolding slots_ok_iff
  proof (intro allI impI)
    fix j assume j: "j < length (images ?s')" and b: "behind ?s' j < unat (used_size ?s')"
    from j q(6) r have jN: "j < unat (log_size s)" by simp
    then have jN': "j < unat (log_size ?s')" using q(1) by simp
    have "?D - 1 \<le> behind s j \<and> behind s j < unat (used_size s)"
      using b d du unfolding behind_if [OF ir' jN'] behind_if [OF ir jN] k(3) t' i q(1)
        dist_nat [OF ir]
      using r jN by (auto split: if_splits)
    with post jN sl r have "images s1 ! j = images s ! j" "is_loaded (images s ! j)"
      by (simp_all add: slots_ok_iff)
    then show "is_loaded (images ?s' ! j)" by simp
  qed
  moreover have "allocated ?s'" using q(1) q(6) r by (simp add: allocated_def)
  ultimately have "log_ok ?s'" using k(1) by (simp add: log_ok_def)
  moreover have "images ?s' ! unat (log_top ?s') = Unloaded"
    unfolding t' im using post ilt' bi d by simp
  ultimately show ?thesis using p by blast
qed

subsection \<open>A frame keeps the log well-formed\<close>

lemma redo_after_prune_faults:
  assumes "in_range s" and "allocated s" and "unat (log_top_dist s) = 1"
    and "images s ! unat (log_top s) = Unloaded"
  shows "undo_log_copy s 1 = Inl Invalid_Image"
proof -
  from assms(1,2) have r: "0 < unat (log_size s)" "unat (log_size s) < 2 ^ 63"
    "length (images s) = unat (log_size s)" "unat (log_top s) < unat (log_size s)"
    "unat (selected s) < unat (log_size s)"
    by (simp_all add: in_range_nat allocated_def)
  from assms(1) have w: "selected s < log_size s" "log_size s \<noteq> 0" by (auto simp add: in_range_def)
  let ?sel = "(selected s + log_size s + word_of_int 1) mod log_size s"
  have "unat ?sel = (if unat (selected s) + 1 = unat (log_size s) then 0 else unat (selected s) + 1)"
    by (rule unat_succ [OF w(1) r(2)])
  with assms(3) have "unat ?sel = unat (log_top s)"
    unfolding dist_nat [OF assms(1)] using r by (auto split: if_splits)
  then have e: "?sel = log_top s" by (simp add: word_unat_eq_iff)
  show ?thesis
    unfolding undo_log_copy_def Let_def e using w(2) r assms(4) by simp
qed

lemma go_forwards_keeps_ok:
  assumes "log_ok s" and "go_forwards (log_top_dist s) inp s = Inr s3"
  shows "log_ok s3"
proof (cases "1 < log_top_dist s")
  case False
  with assms show ?thesis by (simp add: go_forwards_def)
next
  case True
  with assms(2) obtain s2 where
    s2: "(if left_pressed inp then prune (log_top_dist s) s else Inr s) = Inr s2"
    and s3: "(if key_w inp \<or> extra_pressed inp then undo_log_copy s2 1 else Inr s2) = Inr s3"
    by (auto simp add: go_forwards_def elim: bind_fault_Inr)
  show ?thesis
  proof (cases "left_pressed inp")
    case lp: True
    from prune_ok [OF assms(1) True] obtain s' where
      p: "prune (log_top_dist s) s = Inr s'" and ok: "log_ok s'"
      and un: "images s' ! unat (log_top s') = Unloaded"
      by blast
    with s2 lp have e: "s2 = s'" by simp
    from assms(1) have h: "history_ok s" by (simp add: log_ok_def)
    note k = prune_keeps_history [OF h True p]
    show ?thesis
    proof (cases "key_w inp \<or> extra_pressed inp")
      case True
      from k(1) ok have "in_range s'" "allocated s'" by (simp_all add: history_ok_def log_ok_def)
      from redo_after_prune_faults [OF this k(2) un] s3 True e show ?thesis by simp
    next
      case False
      with s3 e ok show ?thesis by simp
    qed
  next
    case lp: False
    with s2 have e: "s2 = s" by simp
    show ?thesis
    proof (cases "key_w inp \<or> extra_pressed inp")
      case kw: True
      from copy_forth_ok [OF assms(1) True] obtain s' where
        "undo_log_copy s 1 = Inr s'" "log_ok s'" by blast
      with s3 kw e show ?thesis by simp
    next
      case False
      with s3 e assms(1) show ?thesis by simp
    qed
  qed
qed

lemma go_forwards_returns:
  assumes "log_ok s"
    and "\<not> (left_pressed inp \<and> (key_w inp \<or> extra_pressed inp) \<and> 1 < log_top_dist s)"
  shows "\<exists>s3. go_forwards (log_top_dist s) inp s = Inr s3"
proof (cases "1 < log_top_dist s")
  case False
  then show ?thesis by (simp add: go_forwards_def)
next
  case True
  show ?thesis
  proof (cases "left_pressed inp")
    case lp: True
    from prune_ok [OF assms(1) True] obtain s' where
      "prune (log_top_dist s) s = Inr s'" by blast
    with True lp assms(2) show ?thesis by (simp add: go_forwards_def bind_fault_def)
  next
    case lp: False
    from copy_forth_ok [OF assms(1) True] obtain s' where
      "undo_log_copy s 1 = Inr s'" by blast
    with True lp show ?thesis by (simp add: go_forwards_def bind_fault_def)
  qed
qed

lemma go_backwards_ok:
  assumes "log_ok s" and "unat (log_top_dist s) \<le> unat d"
  shows "\<exists>s4. go_backwards d inp s = Inr s4 \<and> log_ok s4"
proof (cases "d < used_size s \<and> (key_q inp \<or> side_pressed inp)")
  case True
  with assms(2) have "log_top_dist s < used_size s" by (simp add: word_less_nat_alt)
  from copy_back_ok [OF assms(1) this] obtain s' where
    "undo_log_copy s (- 1) = Inr s'" "log_ok s'" by blast
  with True show ?thesis by (simp add: go_backwards_def)
next
  case False
  with assms(1) show ?thesis by (auto simp add: go_backwards_def)
qed

lemma on_release_ok:
  assumes "log_ok s"
  shows "\<exists>s5. on_release inp s = Inr s5 \<and> log_ok s5"
proof (cases "left_released inp")
  case True
  from assms have "in_range s" "allocated s" "slots_ok s"
    by (simp_all add: log_ok_def history_ok_def)
  from push_ok [OF this] True show ?thesis by (auto simp add: on_release_def)
next
  case False
  with assms show ?thesis by (simp add: on_release_def)
qed

lemma drawing_keeps_ok: "log_ok (drawing inp s) = log_ok s"
  by (simp add: log_ok_def drawing_keeps_history)
    (simp add: drawing_def slots_ok_def behind_def allocated_def)

lemma clear_ok:
  assumes "in_range s" and "allocated s" and "slots_ok s"
  shows "\<exists>s1. clear_framebuffer s blank = Inr s1 \<and> log_ok s1"
proof -
  have "in_range (s\<lparr>framebuffer := blank\<rparr>)" using assms(1) by (simp add: in_range_def)
  moreover have "allocated (s\<lparr>framebuffer := blank\<rparr>)"
    using assms(2) by (simp add: allocated_def)
  moreover have "slots_ok (s\<lparr>framebuffer := blank\<rparr>)"
    using assms(3) slots_ok_cong [of "s\<lparr>framebuffer := blank\<rparr>" s] by simp
  ultimately show ?thesis using push_ok [of "s\<lparr>framebuffer := blank\<rparr>"]
    by (auto simp add: clear_framebuffer_def)
qed

lemma frame_stages:
  assumes "frame blank inp s = Inr s'"
  obtains s1 s3 s4 s5 where
    "(if key_c inp then clear_framebuffer s blank else Inr s) = Inr s1"
    "log_size s1 \<noteq> 0"
    "go_forwards (log_top_dist s1) inp s1 = Inr s3"
    "go_backwards (log_top_dist s1) inp s3 = Inr s4"
    "on_release inp s4 = Inr s5"
    "s' = drawing inp s5"
proof -
  from assms obtain s1 where
    s1: "(if key_c inp then clear_framebuffer s blank else Inr s) = Inr s1"
    and r1: "(if log_size s1 = 0 then Inl Division_By_Zero
              else bind_fault (go_forwards (log_top_dist s1) inp s1)
                (\<lambda>s3. bind_fault (go_backwards (log_top_dist s1) inp s3)
                   (\<lambda>s4. bind_fault (on_release inp s4) (\<lambda>s5. Inr (drawing inp s5))))) = Inr s'"
    unfolding frame_def by (rule bind_fault_Inr)
  from r1 have nz: "log_size s1 \<noteq> 0" by (simp split: if_splits)
  with r1 have "bind_fault (go_forwards (log_top_dist s1) inp s1)
                (\<lambda>s3. bind_fault (go_backwards (log_top_dist s1) inp s3)
                   (\<lambda>s4. bind_fault (on_release inp s4) (\<lambda>s5. Inr (drawing inp s5)))) = Inr s'"
    by simp
  then obtain s3 where s3: "go_forwards (log_top_dist s1) inp s1 = Inr s3"
    and r3: "bind_fault (go_backwards (log_top_dist s1) inp s3)
                   (\<lambda>s4. bind_fault (on_release inp s4) (\<lambda>s5. Inr (drawing inp s5))) = Inr s'"
    by (rule bind_fault_Inr)
  from r3 obtain s4 where s4: "go_backwards (log_top_dist s1) inp s3 = Inr s4"
    and r4: "bind_fault (on_release inp s4) (\<lambda>s5. Inr (drawing inp s5)) = Inr s'"
    by (rule bind_fault_Inr)
  from r4 obtain s5 where s5: "on_release inp s4 = Inr s5"
    and r5: "Inr (drawing inp s5) = (Inr s' :: fault + 'a world)"
    by (rule bind_fault_Inr)
  from r5 have "s' = drawing inp s5" by simp
  with s1 nz s3 s4 s5 that show ?thesis by blast
qed

lemma frame_keeps_ok:
  assumes "log_ok s" and "frame blank inp s = Inr s'"
  shows "log_ok s'"
proof -
  from assms(2) obtain s1 s3 s4 s5 where
    s1: "(if key_c inp then clear_framebuffer s blank else Inr s) = Inr s1"
    and s3: "go_forwards (log_top_dist s1) inp s1 = Inr s3"
    and s4: "go_backwards (log_top_dist s1) inp s3 = Inr s4"
    and s5: "on_release inp s4 = Inr s5"
    and s': "s' = drawing inp s5"
    by (rule frame_stages)
  have ok1: "log_ok s1"
  proof (cases "key_c inp")
    case True
    from assms(1) have "in_range s" "allocated s" "slots_ok s"
      by (simp_all add: log_ok_def history_ok_def)
    from clear_ok [OF this, of blank] s1 True show ?thesis by auto
  next
    case False
    with s1 assms(1) show ?thesis by simp
  qed
  then have h1: "history_ok s1" by (simp add: log_ok_def)
  have ok3: "log_ok s3" by (rule go_forwards_keeps_ok [OF ok1 s3])
  from go_backwards_ok [OF ok3 go_forwards_keeps_history(2) [OF h1 s3], of inp] s4
  have ok4: "log_ok s4" by auto
  from on_release_ok [OF ok4, of inp] s5 have "log_ok s5" by auto
  with s' show ?thesis by (simp add: drawing_keeps_ok)
qed

lemma frame_returns:
  assumes "log_ok s"
    and "\<not> (left_pressed inp \<and> (key_w inp \<or> extra_pressed inp) \<and> \<not> key_c inp \<and>
            1 < log_top_dist s)"
  shows "\<exists>s'. frame blank inp s = Inr s'"
proof -
  from assms(1) have ir: "in_range s" "allocated s" "slots_ok s"
    by (simp_all add: log_ok_def history_ok_def)
  have "\<exists>s1. (if key_c inp then clear_framebuffer s blank else Inr s) = Inr s1 \<and> log_ok s1 \<and>
          (key_c inp \<longrightarrow> unat (log_top_dist s1) \<le> 1) \<and> (\<not> key_c inp \<longrightarrow> s1 = s)"
  proof (cases "key_c inp")
    case True
    from clear_ok [OF ir, of blank] obtain s1 where
      c: "clear_framebuffer s blank = Inr s1" and ok1: "log_ok s1" by blast
    from ir(1) have "in_range (s\<lparr>framebuffer := blank\<rparr>)" by (simp add: in_range_def)
    from push_dist_le [OF this] c have "unat (log_top_dist s1) \<le> 1"
      by (simp add: clear_framebuffer_def)
    with c ok1 True show ?thesis by simp
  next
    case False
    with assms(1) show ?thesis by simp
  qed
  then obtain s1 where s1: "(if key_c inp then clear_framebuffer s blank else Inr s) = Inr s1"
    and ok1: "log_ok s1" and d1: "key_c inp \<longrightarrow> unat (log_top_dist s1) \<le> 1"
    and e1: "\<not> key_c inp \<longrightarrow> s1 = s"
    by blast
  then have h1: "history_ok s1" by (simp add: log_ok_def)
  then have nz: "log_size s1 \<noteq> 0" by (auto simp add: history_ok_def in_range_def)
  have "\<not> (left_pressed inp \<and> (key_w inp \<or> extra_pressed inp) \<and> 1 < log_top_dist s1)"
  proof (cases "key_c inp")
    case True
    with d1 show ?thesis by (simp add: word_less_nat_alt)
  next
    case False
    with e1 assms(2) show ?thesis by simp
  qed
  from go_forwards_returns [OF ok1 this] obtain s3 where
    s3: "go_forwards (log_top_dist s1) inp s1 = Inr s3" by blast
  have ok3: "log_ok s3" by (rule go_forwards_keeps_ok [OF ok1 s3])
  from go_backwards_ok [OF ok3 go_forwards_keeps_history(2) [OF h1 s3], of inp] obtain s4 where
    s4: "go_backwards (log_top_dist s1) inp s3 = Inr s4" and ok4: "log_ok s4" by blast
  from on_release_ok [OF ok4, of inp] obtain s5 where
    s5: "on_release inp s4 = Inr s5" by blast
  have "frame blank inp s = Inr (drawing inp s5)"
    unfolding frame_def s1 using nz s3 s4 s5 by (simp add: bind_fault_def)
  then show ?thesis by blast
qed

lemma frame_faults:
  assumes "log_ok s" and "left_pressed inp" and "key_w inp \<or> extra_pressed inp"
    and "\<not> key_c inp" and "1 < log_top_dist s"
  shows "frame blank inp s = Inl Invalid_Image"
proof -
  from assms(1) have h: "history_ok s" by (simp add: log_ok_def)
  then have nz: "log_size s \<noteq> 0" by (auto simp add: history_ok_def in_range_def)
  from prune_ok [OF assms(1,5)] obtain s2 where
    p: "prune (log_top_dist s) s = Inr s2" and ok2: "log_ok s2"
    and un: "images s2 ! unat (log_top s2) = Unloaded"
    by blast
  note k = prune_keeps_history [OF h assms(5) p]
  from k(1) ok2 have "in_range s2" "allocated s2" by (simp_all add: history_ok_def log_ok_def)
  from redo_after_prune_faults [OF this k(2) un] have "undo_log_copy s2 1 = Inl Invalid_Image" .
  with p assms(2,3,5) have "go_forwards (log_top_dist s) inp s = Inl Invalid_Image"
    by (simp add: go_forwards_def bind_fault_def)
  with assms(4) nz show ?thesis by (simp add: frame_def bind_fault_def)
qed

lemma block_slots_fit:
  fixes n :: size_t
  assumes "unat n * unat sizeof_Image < 2 ^ 64" and "malloc (n * sizeof_Image)"
  shows "block_slots malloc n = unat n"
proof -
  from assms(1) have "unat (n * sizeof_Image) = unat n * unat sizeof_Image"
    by (simp add: unat_mult_lem [THEN iffD1])
  with assms(2) show ?thesis by (simp add: block_slots_def sizeof_Image_def)
qed

lemma fit_below:
  fixes n :: size_t
  assumes "unat n * unat sizeof_Image < 2 ^ 64"
  shows "n < 2 ^ 63"
proof -
  from assms have "unat n < 2 ^ 63" by (simp add: sizeof_Image_def)
  then show ?thesis by (simp add: word_less_nat_alt)
qed

lemma startup_ok:
  assumes "0 < n" and "unat n * unat sizeof_Image < 2 ^ 64" and "malloc (n * sizeof_Image)"
  shows "\<exists>s. startup malloc n blank = Inr s \<and> log_ok s"
proof -
  let ?s0 = "init_world (block_slots malloc n) n blank"
  from assms(1) fit_below [OF assms(2)] have "in_range ?s0"
    by (simp add: in_range_def init_world_def)
  moreover have "allocated ?s0"
    using block_slots_fit [where malloc = malloc and n = n] assms(2,3)
    by (simp add: allocated_def init_world_def)
  moreover have "slots_ok ?s0"
    by (simp add: slots_ok_iff init_world_def)
  ultimately show ?thesis unfolding startup_def by (rule clear_ok)
qed

lemma reachable_ok:
  assumes "unat n * unat sizeof_Image < 2 ^ 64" and "malloc (n * sizeof_Image)"
    and "reachable malloc n blank s"
  shows "log_ok s"
  using assms(3)
proof (induction rule: reachable.induct)
  case (start s)
  from startup_ok [where malloc = malloc and n = n and blank = blank]
    startup_nonzero [OF start] assms(1,2) start
  show ?case by auto
next
  case (step s inp s')
  then show ?case by (intro frame_keeps_ok [of s blank inp s'])
qed

lemma fits_4:
  "unat (4 :: size_t) * unat sizeof_Image < 2 ^ 64" "malloc_1G (4 * sizeof_Image)"
  by (simp_all add: sizeof_Image_def malloc_1G_def)

lemma reachable_browsing: "reachable malloc_1G 4 0 browsing"
proof -
  have "reachable malloc_1G 4 0 fresh" by (rule reachable.start) (rule startup_fresh)
  then have "reachable malloc_1G 4 0 at_tip" by (rule reachable_frames) (rule strokes_at_tip)
  then show ?thesis by (rule reachable_frames) (rule undo_twice_browsing)
qed

lemma browsing_ok: "log_ok browsing"
  by (rule reachable_ok [where malloc = malloc_1G and n = 4, OF fits_4 reachable_browsing])

lemma fresh_ok: "log_ok fresh"
  by (rule reachable_ok [where malloc = malloc_1G and n = 4,
        OF fits_4 reachable.start [OF startup_fresh]])

subsection \<open>Frames with a single request\<close>

lemma bind_fault_return: "bind_fault m Inr = m"
  by (cases m) (simp_all add: bind_fault_def)

lemma bind_fault_left: "bind_fault (Inr x) f = f x"
  by (simp add: bind_fault_def)

lemma quiet_tail:
  assumes "\<not> left_released inp" "\<not> left_down inp" "\<not> right_down inp"
  shows "(\<lambda>s4. bind_fault (on_release inp s4) (\<lambda>s5. Inr (drawing inp s5))) = Inr"
  using assms by (intro ext) (simp add: on_release_def drawing_def bind_fault_def)

lemma frame_undo_request:
  assumes "log_size s \<noteq> 0"
  shows "frame blank undo_request s =
         (if log_top_dist s < used_size s then undo_log_copy s (- 1) else Inr s)"
proof -
  have t: "(\<lambda>s4. bind_fault (on_release undo_request s4)
             (\<lambda>s5. Inr (drawing (undo_request :: 'a input) s5))) = Inr"
    by (rule quiet_tail) (simp_all add: undo_request_def idle_def)
  have a: "go_forwards (log_top_dist s) undo_request s = Inr s"
    by (simp add: go_forwards_def undo_request_def idle_def bind_fault_def)
  have c: "go_backwards (log_top_dist s) undo_request s =
           (if log_top_dist s < used_size s then undo_log_copy s (- 1) else Inr s)"
    by (simp add: go_backwards_def undo_request_def idle_def)
  have k: "\<not> key_c (undo_request :: 'a input)" by (simp add: undo_request_def idle_def)
  have "frame blank undo_request s = go_backwards (log_top_dist s) undo_request s"
    unfolding frame_def t bind_fault_return using assms k by (simp add: a bind_fault_left)
  with c show ?thesis by simp
qed

lemma frame_redo_request:
  assumes "log_size s \<noteq> 0"
  shows "frame blank redo_request s =
         (if 1 < log_top_dist s then undo_log_copy s 1 else Inr s)"
proof -
  have t: "(\<lambda>s4. bind_fault (on_release redo_request s4)
             (\<lambda>s5. Inr (drawing (redo_request :: 'a input) s5))) = Inr"
    by (rule quiet_tail) (simp_all add: redo_request_def idle_def)
  have a: "go_forwards (log_top_dist s) redo_request s =
           (if 1 < log_top_dist s then undo_log_copy s 1 else Inr s)"
    by (simp add: go_forwards_def redo_request_def idle_def bind_fault_def)
  have c: "\<And>d. go_backwards d (redo_request :: 'a input) = Inr"
    by (intro ext) (simp add: go_backwards_def redo_request_def idle_def)
  have k: "\<not> key_c (redo_request :: 'a input)" by (simp add: redo_request_def idle_def)
  have "frame blank redo_request s = go_forwards (log_top_dist s) redo_request s"
    unfolding frame_def t bind_fault_return c using assms k by (simp add: bind_fault_left)
  with a show ?thesis by simp
qed

lemma push_nonzero:
  assumes "undo_log_push s = Inr s'"
  shows "log_size s' \<noteq> 0"
proof -
  from assms have "log_size s \<noteq> 0"
    by (auto simp add: undo_log_push_def bind_fault_def unload_slot_def
        split: if_splits slot.splits)
  with push_indices(1) [OF assms] show ?thesis by simp
qed

lemma frame_clear_request:
  "frame blank clear_request s = clear_framebuffer s blank"
proof (cases "clear_framebuffer s blank")
  case (Inl e)
  then show ?thesis by (simp add: frame_def clear_request_def idle_def bind_fault_def)
next
  case (Inr s1)
  then have nz: "log_size s1 \<noteq> 0" unfolding clear_framebuffer_def by (rule push_nonzero)
  have t: "(\<lambda>s4. bind_fault (on_release clear_request s4)
             (\<lambda>s5. Inr (drawing (clear_request :: 'a input) s5))) = Inr"
    by (rule quiet_tail) (simp_all add: clear_request_def idle_def)
  have a: "go_forwards (log_top_dist s1) clear_request s1 = Inr s1"
    by (simp add: go_forwards_def clear_request_def idle_def bind_fault_def)
  have c: "\<And>d. go_backwards d (clear_request :: 'a input) = Inr"
    by (intro ext) (simp add: go_backwards_def clear_request_def idle_def)
  have k: "key_c (clear_request :: 'a input)" by (simp add: clear_request_def idle_def)
  show ?thesis
    unfolding frame_def t bind_fault_return c using Inr nz k by (simp add: a bind_fault_left)
qed

lemma push_room_unloaded:
  assumes "used_size s < log_size s" and "unat (log_top s) < length (images s)"
    and "undo_log_push (s\<lparr>framebuffer := a\<rparr>) = Inr s'"
  shows "unloaded s' = unloaded s"
proof -
  from assms(1,2) have "used_size (s\<lparr>framebuffer := a\<rparr>) < log_size (s\<lparr>framebuffer := a\<rparr>)"
    "unat (log_top (s\<lparr>framebuffer := a\<rparr>)) < length (images (s\<lparr>framebuffer := a\<rparr>))"
    by simp_all
  from push_room [OF this] assms(3) show ?thesis by auto
qed

lemma push_framebuffer_ok:
  assumes "log_ok s"
  shows "\<exists>s'. undo_log_push (s\<lparr>framebuffer := a\<rparr>) = Inr s' \<and> log_ok s' \<and>
           images s' = (images s)[unat (log_top s) := Loaded a] \<and>
           log_size s' = log_size s \<and> selected s' = log_top s \<and>
           log_top s' = (log_top s + 1) mod log_size s \<and>
           used_size s' = (if used_size s < log_size s then used_size s + 1 else used_size s)"
proof -
  from assms have "in_range s" "allocated s" "slots_ok s"
    by (simp_all add: log_ok_def history_ok_def)
  then have "in_range (s\<lparr>framebuffer := a\<rparr>)" "allocated (s\<lparr>framebuffer := a\<rparr>)"
    "slots_ok (s\<lparr>framebuffer := a\<rparr>)"
    using slots_ok_cong [of "s\<lparr>framebuffer := a\<rparr>" s]
    by (simp_all add: in_range_def allocated_def)
  from push_ok [OF this] obtain s' where
    p: "undo_log_push (s\<lparr>framebuffer := a\<rparr>) = Inr s'" and ok: "log_ok s'"
    and im: "images s' = (images s)[unat (log_top s) := Loaded a]"
    by auto
  from push_indices [OF p] ok im p show ?thesis by simp
qed

subsection \<open>A stroke after undo requests\<close>

lemma frames_append:
  "frames blank (xs @ ys) s = bind_fault (frames blank xs s) (frames blank ys)"
proof (induction xs arbitrary: s)
  case Nil
  then show ?case by (simp add: bind_fault_def)
next
  case (Cons x xs)
  show ?case
  proof (cases "frame blank x s")
    case (Inl e)
    then show ?thesis by (simp add: bind_fault_def)
  next
    case (Inr s1)
    with Cons.IH [of s1] show ?thesis by (simp add: bind_fault_def)
  qed
qed

lemma copy_back_dist:
  assumes "in_range s" and "undo_log_copy s (- 1) = Inr s'"
    and "unat (log_top_dist s) + 1 < unat (log_size s)"
  shows "unat (log_top_dist s') = unat (log_top_dist s) + 1"
proof -
  note c = copy_indices [OF assms(2)]
  from assms(1) have r: "0 < unat (log_size s)" "unat (log_size s) < 2 ^ 63"
    "unat (log_top s) < unat (log_size s)"
    "unat (selected s) < unat (log_size s)" "unat (used_size s) \<le> unat (log_size s)"
    by (simp_all add: in_range_nat)
  from assms(1) have w: "selected s < log_size s" by (simp add: in_range_def)
  have sel: "unat (selected s') =
             (if unat (selected s) = 0 then unat (log_size s) - 1 else unat (selected s) - 1)"
    using unat_prev [OF w r(2)] c(4) by simp
  have ir': "in_range s'"
    unfolding in_range_nat using r sel c by (auto split: if_splits)
  show ?thesis
    using assms(3) unfolding dist_nat [OF ir'] dist_nat [OF assms(1)] sel c(1) c(2) using r
    by (auto split: if_splits)
qed

lemma undo_requests:
  assumes "log_ok s" and "unat (log_top_dist s) + k \<le> unat (used_size s)"
    and "unat (log_top_dist s) + k < unat (log_size s)"
  shows "\<exists>s'. frames blank (replicate k undo_request) s = Inr s' \<and> log_ok s' \<and>
           unat (log_top_dist s') = unat (log_top_dist s) + k \<and>
           used_size s' = used_size s \<and> log_size s' = log_size s"
  using assms
proof (induction k arbitrary: s)
  case 0
  then show ?case by simp
next
  case (Suc k)
  from Suc.prems(1) have ir: "in_range s" by (simp add: log_ok_def history_ok_def)
  then have nz: "log_size s \<noteq> 0" by (auto simp add: in_range_def)
  from Suc.prems(2) have lt: "log_top_dist s < used_size s" by (simp add: word_less_nat_alt)
  from copy_back_ok [OF Suc.prems(1) lt] obtain s1 where
    c: "undo_log_copy s (- 1) = Inr s1" and ok1: "log_ok s1" by blast
  have fr: "frame blank undo_request s = Inr s1"
    using frame_undo_request [OF nz, of blank] lt c by simp
  note g = copy_indices [OF c]
  from Suc.prems(3) have "unat (log_top_dist s) + 1 < unat (log_size s)" by simp
  from copy_back_dist [OF ir c this] have d1: "unat (log_top_dist s1) = unat (log_top_dist s) + 1" .
  from Suc.IH [OF ok1] d1 g(1) g(3) Suc.prems(2,3) obtain s' where
    "frames blank (replicate k undo_request) s1 = Inr s'" "log_ok s'"
    "unat (log_top_dist s') = unat (log_top_dist s1) + k"
    "used_size s' = used_size s1" "log_size s' = log_size s1"
    by auto
  with fr d1 g(1) g(3) show ?case by (simp add: bind_fault_def)
qed

lemma frame_left_press:
  assumes "log_size s \<noteq> 0"
  shows "frame blank (left_press f) s =
         bind_fault (if 1 < log_top_dist s then prune (log_top_dist s) s else Inr s)
           (\<lambda>s2. Inr (s2\<lparr>framebuffer := f (framebuffer s2)\<rparr>))"
proof -
  have k: "\<not> key_c (left_press f)" by (simp add: left_press_def idle_def)
  have a: "go_forwards (log_top_dist s) (left_press f) s =
           (if 1 < log_top_dist s then prune (log_top_dist s) s else Inr s)"
    by (simp add: go_forwards_def left_press_def idle_def bind_fault_return)
  have c: "\<And>d. go_backwards d (left_press f) = Inr"
    by (intro ext) (simp add: go_backwards_def left_press_def idle_def)
  have t: "(\<lambda>s4. bind_fault (on_release (left_press f) s4)
              (\<lambda>s5. Inr (drawing (left_press f) s5))) =
           (\<lambda>s4. Inr (s4\<lparr>framebuffer := f (framebuffer s4)\<rparr>))"
    by (intro ext) (simp add: on_release_def drawing_def left_press_def idle_def bind_fault_def)
  show ?thesis
    unfolding frame_def t c using assms k by (simp add: a bind_fault_left)
qed

lemma frame_left_release:
  assumes "log_size s \<noteq> 0"
  shows "frame blank left_release s = undo_log_push s"
proof -
  have k: "\<not> key_c (left_release :: 'a input)" by (simp add: left_release_def idle_def)
  have a: "go_forwards (log_top_dist s) left_release s = Inr s"
    by (simp add: go_forwards_def left_release_def idle_def bind_fault_def)
  have c: "\<And>d. go_backwards d (left_release :: 'a input) = Inr"
    by (intro ext) (simp add: go_backwards_def left_release_def idle_def)
  have t: "(\<lambda>s4. bind_fault (on_release left_release s4)
              (\<lambda>s5. Inr (drawing (left_release :: 'a input) s5))) = undo_log_push"
    by (intro ext)
      (simp add: on_release_def drawing_def left_release_def idle_def bind_fault_return)
  show ?thesis
    unfolding frame_def t c using assms k by (simp add: a bind_fault_left)
qed

lemma log_ok_framebuffer: "log_ok (s\<lparr>framebuffer := x\<rparr>) = log_ok s"
  by (simp add: log_ok_def history_ok_def in_range_def allocated_def log_top_dist_def
      slots_ok_def behind_def)

lemma push_dist:
  assumes "in_range s" and "2 \<le> unat (log_size s)" and "undo_log_push s = Inr s'"
  shows "unat (log_top_dist s') = 1"
proof -
  note p = push_indices [OF assms(3)]
  from assms(1) have r: "unat (log_top s) < unat (log_size s)" by (simp add: in_range_nat)
  from assms(1) have w: "log_top s < log_size s" by (simp add: in_range_def)
  have t: "unat (log_top s') =
           (if unat (log_top s) + 1 = unat (log_size s) then 0 else unat (log_top s) + 1)"
    using unat_next [OF w] p(3) by simp
  from push_keeps_history [OF assms(1,3)] have ir': "in_range s'" by (simp add: history_ok_def)
  show ?thesis
    unfolding dist_nat [OF ir'] t p(1) p(2) using r assms(2) by (auto split: if_splits)
qed

lemma stroke_after_undo_prunes:
  assumes "log_ok s" and "unat (log_top_dist s) = 1"
    and "0 < k" and "k < unat (used_size s)" and "k + 1 < unat (log_size s)"
  shows "\<exists>s'. frames blank (replicate k undo_request @ [left_press f, left_release]) s = Inr s' \<and>
           log_ok s' \<and> unat (used_size s') = unat (used_size s) - k + 1 \<and>
           unat (log_top_dist s') = 1 \<and> frame blank redo_request s' = Inr s'"
proof -
  \<comment> \<open>the undo requests\<close>
  from undo_requests [OF assms(1), of k blank] assms(2,4,5) obtain su where
    u: "frames blank (replicate k undo_request) s = Inr su" and oku: "log_ok su"
    and du: "unat (log_top_dist su) = 1 + k"
    and fu: "used_size su = used_size s" "log_size su = log_size s"
    by auto
  from oku have hu: "history_ok su" by (simp add: log_ok_def)
  then have iru: "in_range su" by (simp add: history_ok_def)
  then have nzu: "log_size su \<noteq> 0" by (auto simp add: in_range_def)
  \<comment> \<open>the press prunes\<close>
  from du assms(3) have ltu: "1 < log_top_dist su" by (simp add: word_less_nat_alt)
  from prune_ok [OF oku ltu] obtain s2 where
    p: "prune (log_top_dist su) su = Inr s2" and ok2: "log_ok s2" by blast
  note k2 = prune_keeps_history [OF hu ltu p]
  note q2 = prune_indices [OF p]
  let ?sp = "s2\<lparr>framebuffer := f (framebuffer s2)\<rparr>"
  have frp: "frame blank (left_press f) su = Inr ?sp"
    using frame_left_press [OF nzu, of blank f] ltu p by (simp add: bind_fault_left)
  have okp: "log_ok ?sp" using ok2 by (simp add: log_ok_framebuffer)
  then have irp: "in_range ?sp" "allocated ?sp" "slots_ok ?sp"
    by (simp_all add: log_ok_def history_ok_def)
  have nzp: "log_size ?sp \<noteq> 0" using nzu q2(1) by simp
  have up: "unat (used_size ?sp) = unat (used_size s) - k"
    using k2(3) du fu(1) by simp
  \<comment> \<open>the release pushes\<close>
  from push_ok [OF irp] obtain s' where
    ps: "undo_log_push ?sp = Inr s'" and ok': "log_ok s'" by blast
  have frr: "frame blank left_release ?sp = Inr s'"
    using frame_left_release [OF nzp, of blank] ps by simp
  note q' = push_indices [OF ps]
  from assms(1) have "unat (used_size s) \<le> unat (log_size s)"
    by (simp add: log_ok_def history_ok_def in_range_nat)
  with up assms(3,4) have "unat (used_size ?sp) < unat (log_size ?sp)"
    using q2(1) fu(2) by simp
  then have lt: "used_size ?sp < log_size ?sp" by (simp add: word_less_nat_alt)
  have u': "unat (used_size s') = unat (used_size s) - k + 1"
    using q'(4) lt unat_inc [OF lt] up by simp
  have "2 \<le> unat (log_size ?sp)" using assms(3,5) q2(1) fu(2) by simp
  from push_dist [OF irp(1) this ps] have d': "unat (log_top_dist s') = 1" .
  from ok' have nz': "log_size s' \<noteq> 0"
    by (auto simp add: log_ok_def history_ok_def in_range_def)
  have "\<not> 1 < log_top_dist s'" using d' by (simp add: word_less_nat_alt)
  with frame_redo_request [OF nz', of blank] have rd: "frame blank redo_request s' = Inr s'"
    by simp
  have "frames blank (replicate k undo_request @ [left_press f, left_release]) s = Inr s'"
    using u frp frr by (simp add: frames_append bind_fault_left)
  with ok' u' d' rd show ?thesis by blast
qed

subsection \<open>Frames that push nothing\<close>

lemma keeps_refl: "keeps_or_unloads xs xs"
  by (simp add: keeps_or_unloads_def list_all2_conv_all_nth)

lemma keeps_trans:
  assumes "keeps_or_unloads xs ys" and "keeps_or_unloads ys zs"
  shows "keeps_or_unloads xs zs"
  unfolding keeps_or_unloads_def list_all2_conv_all_nth
proof (intro conjI allI impI)
  from assms show "length xs = length zs"
    by (simp add: keeps_or_unloads_def list_all2_conv_all_nth)
next
  fix i assume i: "i < length xs"
  from assms i have "ys ! i = xs ! i \<or> ys ! i = Unloaded" "zs ! i = ys ! i \<or> zs ! i = Unloaded"
    by (simp_all add: keeps_or_unloads_def list_all2_conv_all_nth)
  then show "zs ! i = xs ! i \<or> zs ! i = Unloaded" by auto
qed

lemma keeps_update: "keeps_or_unloads xs (xs[i := Unloaded])"
  unfolding keeps_or_unloads_def list_all2_conv_all_nth
proof (intro conjI allI impI)
  show "length xs = length (xs[i := Unloaded])" by simp
next
  fix j assume "j < length xs"
  then show "xs[i := Unloaded] ! j = xs ! j \<or> xs[i := Unloaded] ! j = Unloaded"
    by (cases "j = i") simp_all
qed

lemma unload_keeps:
  assumes "unload_slot i s = Inr s'"
  shows "keeps_or_unloads (images s) (images s')"
proof -
  from assms obtain x where
    "s' = s\<lparr>images := (images s)[unat i := Unloaded], unloaded := unloaded s @ [x]\<rparr>"
    by (auto simp add: unload_slot_def split: if_splits slot.splits)
  then show ?thesis by (simp add: keeps_update)
qed

lemma release_loop_keeps:
  "release_loop i s = Inr s' \<Longrightarrow> keeps_or_unloads (images s) (images s')"
proof (induction i s rule: release_loop.induct)
  case (1 i s)
  show ?case
  proof (cases "i = log_top s")
    case True
    with "1.prems" show ?thesis by (simp add: release_loop.simps [of i s] keeps_refl)
  next
    case False
    with "1.prems" obtain s1 where
      u: "unload_slot i s = Inr s1" and nz: "log_size s1 \<noteq> 0"
      and r: "release_loop ((i + 1) mod log_size s1) s1 = Inr s'"
      by (simp add: release_loop.simps [of i s] split: sum.splits if_splits)
    from unload_keeps [OF u] "1.IH" [OF False u nz r] show ?thesis by (rule keeps_trans)
  qed
qed

lemma prune_keeps:
  assumes "prune d s = Inr s'"
  shows "keeps_or_unloads (images s) (images s')"
proof -
  from assms obtain s1 where r: "release_loop ((selected s + 1) mod log_size s) s = Inr s1"
    and s': "s' = s1\<lparr>log_top := (selected s1 + 1) mod log_size s1,
                      used_size := used_size s1 - (d - 1)\<rparr>"
    by (rule prune_Inr)
  from release_loop_keeps [OF r] s' show ?thesis by simp
qed

lemma go_forwards_keeps:
  assumes "go_forwards d inp s = Inr s3"
  shows "keeps_or_unloads (images s) (images s3)"
proof (cases "1 < d")
  case False
  with assms show ?thesis by (simp add: go_forwards_def keeps_refl)
next
  case True
  with assms obtain s2 where
    s2: "(if left_pressed inp then prune d s else Inr s) = Inr s2"
    and s3: "(if key_w inp \<or> extra_pressed inp then undo_log_copy s2 1 else Inr s2) = Inr s3"
    by (auto simp add: go_forwards_def elim: bind_fault_Inr)
  have a: "keeps_or_unloads (images s) (images s2)"
  proof (cases "left_pressed inp")
    case True
    with s2 show ?thesis by (simp add: prune_keeps)
  next
    case False
    with s2 show ?thesis by (simp add: keeps_refl)
  qed
  have "images s3 = images s2"
  proof (cases "key_w inp \<or> extra_pressed inp")
    case True
    with s3 have "undo_log_copy s2 1 = Inr s3" by simp
    then show ?thesis by (rule copy_indices(5))
  next
    case False
    with s3 show ?thesis by simp
  qed
  with a show ?thesis by simp
qed

lemma go_backwards_images:
  assumes "go_backwards d inp s = Inr s4"
  shows "images s4 = images s"
proof (cases "d < used_size s \<and> (key_q inp \<or> side_pressed inp)")
  case True
  with assms have "undo_log_copy s (- 1) = Inr s4" by (simp add: go_backwards_def)
  then show ?thesis by (rule copy_indices(5))
next
  case False
  with assms show ?thesis by (auto simp add: go_backwards_def)
qed

lemma frame_pushes_nothing:
  assumes "frame blank inp s = Inr s'" and "\<not> key_c inp" and "\<not> left_released inp"
  shows "keeps_or_unloads (images s) (images s')"
proof -
  from assms(1) obtain s1 s3 s4 s5 where
    s1: "(if key_c inp then clear_framebuffer s blank else Inr s) = Inr s1"
    and s3: "go_forwards (log_top_dist s1) inp s1 = Inr s3"
    and s4: "go_backwards (log_top_dist s1) inp s3 = Inr s4"
    and s5: "on_release inp s4 = Inr s5"
    and s': "s' = drawing inp s5"
    by (rule frame_stages)
  from s1 assms(2) have e1: "s1 = s" by simp
  from s5 assms(3) have e5: "s5 = s4" by (simp add: on_release_def)
  from s' have "images s' = images s5" by (simp add: drawing_def)
  with go_forwards_keeps [OF s3] go_backwards_images [OF s4] e1 e5 show ?thesis by simp
qed

section \<open>Rounding to single precision\<close>

lemma round_even_int: "round_even (of_int z) = z"
  by (simp add: round_even_def)

lemma bitlen_1: "bitlen 1 = 1"
  by (simp add: bitlen_alt_def)

lemma bitlen_rat_bounds:
  assumes "0 < n"
  shows "power_int 2 (bitlen n - 1) \<le> rat_of_int n" "rat_of_int n < power_int 2 (bitlen n)"
proof -
  from assms have b: "1 \<le> bitlen n" by (simp add: bitlen_alt_def)
  from bitlen_bounds [OF assms]
  have "(2 :: int) ^ nat (bitlen n - 1) \<le> n" "n < 2 ^ nat (bitlen n)"
    by simp_all
  then have "(of_int ((2 :: int) ^ nat (bitlen n - 1)) :: rat) \<le> of_int n"
    "rat_of_int n < of_int (2 ^ nat (bitlen n))"
    by (simp_all only: of_int_le_iff of_int_less_iff)
  then show "power_int 2 (bitlen n - 1) \<le> rat_of_int n" "rat_of_int n < power_int 2 (bitlen n)"
    using b by (simp_all add: power_int_def)
qed

lemma ilog2_bounds:
  assumes "0 < x"
  shows "power_int 2 (ilog2 x) \<le> x" "x < power_int 2 (ilog2 x + 1)"
proof -
  obtain p q where pq: "quotient_of x = (p, q)" by (cases "quotient_of x")
  then have q0: "0 < q" by (rule quotient_of_denom_pos)
  from pq have x: "x = of_int p / of_int q" by (rule quotient_of_div)
  with assms q0 have p0: "0 < p" by (simp add: zero_less_divide_iff)
  define k where "k = bitlen p - bitlen q"
  note bp = bitlen_rat_bounds [OF p0] and bq = bitlen_rat_bounds [OF q0]
  have qq: "0 < rat_of_int q" using q0 by simp
  have lo: "power_int 2 (k - 1) \<le> x"
  proof -
    have "power_int 2 (k - 1) = power_int (2 :: rat) (bitlen p - 1) / power_int 2 (bitlen q)"
      unfolding k_def using power_int_diff [of "2 :: rat" "bitlen p - 1" "bitlen q"]
      by (simp add: algebra_simps)
    also have "\<dots> \<le> rat_of_int p / power_int 2 (bitlen q)"
      using bp(1) by (simp add: divide_right_mono)
    also have "\<dots> \<le> rat_of_int p / rat_of_int q"
      using bq(2) qq p0 by (intro divide_left_mono) (simp_all add: less_imp_le)
    finally show ?thesis by (simp add: x)
  qed
  have hi: "x < power_int 2 (k + 1)"
  proof -
    have pos: "(0 :: rat) < power_int 2 (bitlen q - 1)" by (simp add: zero_less_power_int)
    have "x = rat_of_int p / rat_of_int q" by (rule x)
    also have "\<dots> < power_int 2 (bitlen p) / rat_of_int q"
      using bp(2) qq by (simp add: divide_strict_right_mono)
    also have "\<dots> \<le> power_int 2 (bitlen p) / power_int 2 (bitlen q - 1)"
      using bq(1) pos q0
      by (intro divide_left_mono) (simp_all add: zero_less_power_int less_imp_le)
    also have "\<dots> = power_int 2 (k + 1)"
      unfolding k_def using power_int_diff [of "2 :: rat" "bitlen p" "bitlen q - 1"]
      by (simp add: algebra_simps)
    finally show ?thesis .
  qed
  have il: "ilog2 x = (if power_int 2 k \<le> x then k else k - 1)"
    by (simp add: ilog2_def pq k_def)
  show "power_int 2 (ilog2 x) \<le> x" using lo by (simp add: il)
  show "x < power_int 2 (ilog2 x + 1)" using hi by (auto simp add: il)
qed

lemma round_even_le:
  assumes "q \<le> of_int N"
  shows "round_even q \<le> N"
proof -
  have "round_even q \<le> \<lceil>q\<rceil>"
    unfolding round_even_def Let_def by (auto simp: ceiling_altdef)
  also from assms have "\<lceil>q\<rceil> \<le> N" by (simp add: ceiling_le_iff)
  finally show ?thesis .
qed

lemma round_even_nonneg:
  assumes "0 \<le> q"
  shows "0 \<le> round_even q"
  using assms unfolding round_even_def Let_def by auto

lemma round_float_bound:
  assumes "\<bar>x\<bar> < power_int 2 k" and "- 125 \<le> k"
  shows "\<bar>round_float x\<bar> \<le> power_int 2 k"
proof (cases "x = 0")
  case True
  then show ?thesis by (simp add: round_float_def zero_le_power_int)
next
  case False
  define a where "a = \<bar>x\<bar>"
  from False have a0: "0 < a" by (simp add: a_def)
  define L where "L = ilog2 a"
  define e where "e = max (L - 23) (- 149)"
  note b = ilog2_bounds [OF a0, folded L_def]
  from b(1) assms(1) have "power_int (2 :: rat) L < power_int 2 k" by (simp add: a_def)
  then have Lk: "L < k"
    using power_int_strict_increasing [of k L "2 :: rat"] power_int_increasing [of k L "2 :: rat"]
    by (cases "L < k") (auto simp: not_less)
  have pe: "(0 :: rat) < power_int 2 e" by (simp add: zero_less_power_int)
  have "a / power_int 2 e < power_int 2 (L + 1) / power_int 2 e"
    using b(2) pe by (simp add: divide_strict_right_mono)
  also have "\<dots> = power_int 2 (L + 1 - e)"
    using power_int_diff [of "2 :: rat" "L + 1" e] by simp
  also have "\<dots> \<le> power_int 2 24"
    by (intro power_int_increasing) (simp_all add: e_def)
  finally have "a / power_int 2 e \<le> of_int (2 ^ 24)" by simp
  then have m: "round_even (a / power_int 2 e) \<le> 2 ^ 24" by (rule round_even_le)
  have m0: "0 \<le> round_even (a / power_int 2 e)"
    using a0 pe by (intro round_even_nonneg) (simp add: less_imp_le)
  have "\<bar>round_float x\<bar> = of_int (round_even (a / power_int 2 e)) * power_int 2 e"
    using False m0 pe by (simp add: round_float_def Let_def a_def L_def e_def abs_mult less_imp_le)
  also have "\<dots> \<le> of_int (2 ^ 24) * power_int 2 e"
    using m pe by (intro mult_right_mono) (simp_all add: less_imp_le)
  also have "\<dots> = power_int 2 (e + 24)"
    using power_int_add [of "2 :: rat" e 24] by simp
  also have "\<dots> \<le> power_int 2 k"
    using Lk assms(2) by (intro power_int_increasing) (simp_all add: e_def)
  finally show ?thesis .
qed

lemma ilog2_int:
  assumes "0 < n"
  shows "ilog2 (of_int n) = bitlen n - 1"
  using bitlen_rat_bounds(1) [OF assms] by (simp add: ilog2_def bitlen_1)

lemma round_float_int:
  assumes "\<bar>n\<bar> \<le> 2 ^ 24"
  shows "round_float (of_int n) = of_int n"
proof (cases "n = 0")
  case True
  then show ?thesis by (simp add: round_float_def)
next
  case False
  define m where "m = \<bar>n\<bar>"
  from False have m0: "0 < m" by (simp add: m_def)
  from assms have m24: "m \<le> 2 ^ 24" by (simp add: m_def)
  define k where "k = bitlen m - 1"
  have ab: "\<bar>rat_of_int n\<bar> = of_int m" by (simp add: m_def)
  have il: "ilog2 (rat_of_int m) = k" unfolding k_def by (rule ilog2_int [OF m0])
  from m0 have k0: "0 \<le> k" by (simp add: k_def bitlen_alt_def)
  from m24 have "m < 2 ^ nat 25" by simp
  then have "bitlen m \<le> 25" by (simp add: bitlen_le_iff_power)
  then have k24: "k \<le> 24" by (simp add: k_def)
  have e: "max (k - 23) (- 149) = k - 23" using k0 by simp
  have sg: "sgn (rat_of_int n) * of_int m = of_int n"
    by (simp add: m_def sgn_if)
  have "sgn (rat_of_int n) * of_int (round_even (of_int m / power_int 2 (k - 23))) *
          power_int 2 (k - 23) = of_int n"
  proof (cases "k \<le> 23")
    case True
    define j where "j = nat (23 - k)"
    from True have p: "power_int (2 :: rat) (k - 23) = 1 / 2 ^ j"
      by (cases "k = 23") (simp_all add: power_int_def j_def field_simps)
    have "rat_of_int m / power_int 2 (k - 23) = of_int (m * 2 ^ j)" by (simp add: p)
    then have "round_even (of_int m / power_int 2 (k - 23)) = m * 2 ^ j"
      by (simp only: round_even_int)
    then have "sgn (rat_of_int n) * of_int (round_even (of_int m / power_int 2 (k - 23))) *
                 power_int 2 (k - 23) = sgn (rat_of_int n) * of_int m"
      by (simp add: p)
    with sg show ?thesis by simp
  next
    case False
    with k24 have k: "k = 24" by simp
    then have "bitlen m = 25" by (simp add: k_def)
    with bitlen_bounds [OF m0] have "2 ^ 24 \<le> m" by simp
    with m24 have m: "m = 2 ^ 24" by simp
    have p: "power_int (2 :: rat) (k - 23) = 2" by (simp add: k)
    have "rat_of_int m / power_int 2 (k - 23) = of_int (2 ^ 23)" by (simp add: p m)
    then have "round_even (of_int m / power_int 2 (k - 23)) = 2 ^ 23"
      by (simp only: round_even_int)
    then have "sgn (rat_of_int n) * of_int (round_even (of_int m / power_int 2 (k - 23))) *
                 power_int 2 (k - 23) = sgn (rat_of_int n) * of_int m"
      by (simp add: p m)
    with sg show ?thesis by simp
  qed
  then show ?thesis using False by (simp add: round_float_def ab il e Let_def)
qed

lemma sint_int:
  assumes "INT_MIN \<le> v" and "v \<le> INT_MAX"
  shows "sint (word_of_int v :: c_int) = v"
  using assms
  by (simp add: sint_sbintrunc' signed_take_bit_int_eq_self INT_MIN_def INT_MAX_def)

lemma clamp_x: "clamp_target 800 t 2560 = Inr (word_of_int (CLAMP 400 (sint t) 2160))"
  by (simp add: clamp_target_def int_sub_def int_cast_def INT_MIN_def INT_MAX_def
      bind_fault_def MAX_int_def signed_divide_int_def)

lemma clamp_y: "clamp_target 600 t 1440 = Inr (word_of_int (CLAMP 300 (sint t) 1140))"
  by (simp add: clamp_target_def int_sub_def int_cast_def INT_MIN_def INT_MAX_def
      bind_fault_def MAX_int_def signed_divide_int_def)

lemma CLAMP_if:
  "CLAMP lower x upper = (if upper < lower \<or> upper < x then upper else if x < lower then lower else x)"
  by (simp add: CLAMP_def MIN_int_def MAX_int_def)

lemma pan_range:
  assumes "pan 800 600 2560 1440 mouse_pos prev_mouse_pos target = Inr r"
  shows "400 \<le> sint (fst r) \<and> sint (fst r) \<le> 2160 \<and>
         300 \<le> sint (snd r) \<and> sint (snd r) \<le> 1140"
proof -
  from assms obtain x1 where
    "pan_axis (fst target) (fst mouse_pos) (fst prev_mouse_pos) = Inr x1" and
    a: "bind_fault (pan_axis (snd target) (snd mouse_pos) (snd prev_mouse_pos))
          (\<lambda>y1. bind_fault (Inr (word_of_int (CLAMP 400 (sint x1) 2160)))
             (\<lambda>x2. bind_fault (Inr (word_of_int (CLAMP 300 (sint y1) 1140)))
                (\<lambda>y2. Inr (x2, y2)))) = Inr r"
    unfolding pan_def clamp_x clamp_y by (rule bind_fault_Inr)
  from a obtain y1 where
    "pan_axis (snd target) (snd mouse_pos) (snd prev_mouse_pos) = Inr y1" and
    "bind_fault (Inr (word_of_int (CLAMP 400 (sint x1) 2160)))
       (\<lambda>x2. bind_fault (Inr (word_of_int (CLAMP 300 (sint y1) 1140)))
          (\<lambda>y2. Inr (x2, y2))) = (Inr r :: fault + c_int \<times> c_int)"
    by (rule bind_fault_Inr)
  then have
    r: "r = (word_of_int (CLAMP 400 (sint x1) 2160), word_of_int (CLAMP 300 (sint y1) 1140))"
    by (simp add: bind_fault_def)
  have "400 \<le> CLAMP 400 (sint x1) 2160" "CLAMP 400 (sint x1) 2160 \<le> 2160"
    "300 \<le> CLAMP 300 (sint y1) 1140" "CLAMP 300 (sint y1) 1140 \<le> 1140"
    by (simp_all add: CLAMP_if)
  then show ?thesis unfolding r by (simp add: sint_int INT_MIN_def INT_MAX_def)
qed

lemma trunc_abs: "\<bar>rat_of_int (trunc x)\<bar> \<le> \<bar>x\<bar>"
proof (cases "0 \<le> x")
  case True
  then have "0 \<le> rat_of_int \<lfloor>x\<rfloor>" "rat_of_int \<lfloor>x\<rfloor> \<le> x" by simp_all
  with True show ?thesis by (simp add: trunc_def)
next
  case False
  then have "rat_of_int \<lceil>x\<rceil> \<le> 0" "x \<le> rat_of_int \<lceil>x\<rceil>"
    by (simp_all add: ceiling_le_iff)
  with False show ?thesis by (simp add: trunc_def)
qed

lemma pan_axis_returns:
  assumes "\<bar>sint t\<bar> < 2 ^ 28" and "\<bar>m - p\<bar> < 2 ^ 28"
  shows "\<exists>r. pan_axis t m p = Inr r"
proof -
  define f where "f = round_float (of_int (sint t))"
  define d where "d = round_float (m - p)"
  define x where "x = round_float (f - d)"
  from assms(1) have "rat_of_int \<bar>sint t\<bar> < of_int (2 ^ 28)" by (simp only: of_int_less_iff)
  then have "\<bar>rat_of_int (sint t)\<bar> < power_int 2 28" by simp
  from round_float_bound [OF this] have f: "\<bar>f\<bar> \<le> 2 ^ 28" by (simp add: f_def)
  from assms(2) have "\<bar>m - p\<bar> < power_int 2 28" by simp
  from round_float_bound [OF this] have d: "\<bar>d\<bar> \<le> 2 ^ 28" by (simp add: d_def)
  have "\<bar>f - d\<bar> \<le> \<bar>f\<bar> + \<bar>d\<bar>" by (rule abs_triangle_ineq4)
  with f d have "\<bar>f - d\<bar> < power_int 2 30" by simp
  from round_float_bound [OF this] have "\<bar>x\<bar> \<le> 2 ^ 30" by (simp add: x_def)
  with trunc_abs [of x] have "\<bar>rat_of_int (trunc x)\<bar> \<le> of_int (2 ^ 30)" by simp
  then have "\<bar>trunc x\<bar> \<le> 2 ^ 30" by (simp only: of_int_abs [symmetric] of_int_le_iff)
  then have "INT_MIN \<le> trunc x \<and> trunc x \<le> INT_MAX"
    by (simp add: INT_MIN_def INT_MAX_def abs_le_iff)
  then show ?thesis
    by (simp add: pan_axis_def int_of_float_def float_sub_def float_of_int_def x_def f_def d_def)
qed

lemma trunc_int: "trunc (of_int z) = z"
  by (simp add: trunc_def)

lemma pan_axis_exact:
  assumes "\<bar>sint t\<bar> \<le> 2 ^ 23" and "\<bar>a\<bar> \<le> 2 ^ 22" and "\<bar>b\<bar> \<le> 2 ^ 22"
  shows "pan_axis t (of_int a) (of_int b) = Inr (word_of_int (sint t - (a - b)))"
proof -
  define z where "z = sint t - (a - b)"
  from assms(1) have f: "float_of_int t = of_int (sint t)"
    unfolding float_of_int_def by (intro round_float_int) simp
  from assms(2,3) have "\<bar>a - b\<bar> \<le> 2 ^ 24" by simp
  then have "round_float (of_int (a - b)) = of_int (a - b)" by (rule round_float_int)
  then have d: "float_sub (of_int a) (of_int b) = of_int (a - b)" by (simp add: float_sub_def)
  from assms have z: "\<bar>z\<bar> \<le> 2 ^ 24" by (simp add: z_def)
  then have "round_float (of_int z) = of_int z" by (rule round_float_int)
  then have x: "float_sub (float_of_int t) (float_sub (of_int a) (of_int b)) = of_int z"
    unfolding f d by (simp add: float_sub_def z_def)
  from z have "INT_MIN \<le> z \<and> z \<le> INT_MAX"
    by (simp add: INT_MIN_def INT_MAX_def abs_le_iff)
  then have "pan_axis t (of_int a) (of_int b) = Inr (word_of_int z)"
    unfolding pan_axis_def x int_of_float_def trunc_int by simp
  then show ?thesis by (simp only: z_def)
qed

text \<open>
  Three values of the model: the nearest \<^verbatim>\<open>float\<close> to one third, a tie that goes to
  the even significand, and a pan in a canvas \<open>2 ^ 30\<close> wide that moves the mouse
  by nothing and yet changes the target, because no \<^verbatim>\<open>float\<close> is \<open>2 ^ 24 + 1\<close>.
\<close>

lemma round_float_examples:
  "round_float (1 / 3) = 11184811 / 33554432"
  "round_float 16777217 = 16777216"
  "pan 800 600 0x40000000 1440 (0, 0) (0, 0) (16777217, 300) = Inr (16777216, 300)"
  by code_simp+

section \<open>The camera target stays in range\<close>

text \<open>
  C7 as stated fails in both halves. After the resize to 3000 by 2000 neither axis
  of the target is half the canvas's extent (1280 and 720): the lower bound of the
  clamp, half the window, exceeds the upper bound, and \<^verbatim>\<open>CLAMP\<close> returns the upper
  bound, the canvas's extent less half the window's. And a pan cannot go
  arbitrarily far: when the mouse moves by \<open>3 * 10 ^ 9\<close> pixels in one frame, no
  \<^verbatim>\<open>int\<close> holds the \<^verbatim>\<open>float\<close> that line 297 converts (3000000512), and C leaves the
  conversion undefined.
\<close>

theorem viewport_resize_not_centred:
  "resized 3000 2000 2560 1440 (400, 300) = Inr (1060, 440) \<and>
   (1060 :: c_int) \<noteq> word_of_int (int_cast 2560 sdiv 2) \<and>
   (440 :: c_int) \<noteq> word_of_int (int_cast 1440 sdiv 2) \<and>
   pan 800 600 2560 1440 (0, 0) (3000000000, 0) (400, 300) = Inl Float_Out_Of_Range"
  by code_simp

text \<open>
  C7, as the code has it, with a canvas of 2560 by 1440 and a window of 800 by 600.
  Whenever a pan returns, the target's x is in [400, 2160] and its y in [300, 1140].
  A pan returns when the target is within \<open>2 ^ 28\<close> of 0 and the mouse has moved by
  less than \<open>2 ^ 28\<close> pixels on each axis. When the mouse positions are whole
  pixels within \<open>2 ^ 22\<close> of 0 and the target is within \<open>2 ^ 23\<close> of 0, nothing is
  rounded, and each axis of the target becomes the old target less the movement
  of the mouse, replaced by the nearer bound when it lies outside the range. After
  a resize to 3000 by 2000 the window is larger than the canvas on both axes, and
  each axis of the target becomes the canvas's extent less half the window's:
  1060 and 440, whatever the target was.
\<close>

theorem viewport_clamp:
  "(pan 800 600 2560 1440 mouse_pos prev_mouse_pos target = Inr r \<longrightarrow>
      400 \<le> sint (fst r) \<and> sint (fst r) \<le> 2160 \<and>
      300 \<le> sint (snd r) \<and> sint (snd r) \<le> 1140) \<and>
   (\<bar>sint (fst target)\<bar> < 2 ^ 28 \<and> \<bar>sint (snd target)\<bar> < 2 ^ 28 \<and>
    \<bar>fst mouse_pos - fst prev_mouse_pos\<bar> < 2 ^ 28 \<and>
    \<bar>snd mouse_pos - snd prev_mouse_pos\<bar> < 2 ^ 28 \<longrightarrow>
      (\<exists>r'. pan 800 600 2560 1440 mouse_pos prev_mouse_pos target = Inr r')) \<and>
   (\<bar>sint tx\<bar> \<le> 2 ^ 23 \<and> \<bar>sint ty\<bar> \<le> 2 ^ 23 \<and>
    \<bar>mx\<bar> \<le> 2 ^ 22 \<and> \<bar>my\<bar> \<le> 2 ^ 22 \<and> \<bar>px\<bar> \<le> 2 ^ 22 \<and> \<bar>py\<bar> \<le> 2 ^ 22 \<longrightarrow>
      pan 800 600 2560 1440 (of_int mx, of_int my) (of_int px, of_int py) (tx, ty) =
        Inr (word_of_int
               (if sint tx - (mx - px) < 400 then 400
                else if 2160 < sint tx - (mx - px) then 2160
                else sint tx - (mx - px)),
             word_of_int
               (if sint ty - (my - py) < 300 then 300
                else if 1140 < sint ty - (my - py) then 1140
                else sint ty - (my - py)))) \<and>
   resized 3000 2000 2560 1440 target = Inr (1060, 440)"
proof (intro conjI impI)
  assume "pan 800 600 2560 1440 mouse_pos prev_mouse_pos target = Inr r"
  from pan_range [OF this]
  show "400 \<le> sint (fst r)" "sint (fst r) \<le> 2160" "300 \<le> sint (snd r)"
    "sint (snd r) \<le> 1140"
    by simp_all
next
  assume a: "\<bar>sint (fst target)\<bar> < 2 ^ 28 \<and> \<bar>sint (snd target)\<bar> < 2 ^ 28 \<and>
    \<bar>fst mouse_pos - fst prev_mouse_pos\<bar> < 2 ^ 28 \<and>
    \<bar>snd mouse_pos - snd prev_mouse_pos\<bar> < 2 ^ 28"
  from a pan_axis_returns [of "fst target" "fst mouse_pos" "fst prev_mouse_pos"] obtain x1 where
    x1: "pan_axis (fst target) (fst mouse_pos) (fst prev_mouse_pos) = Inr x1" by blast
  from a pan_axis_returns [of "snd target" "snd mouse_pos" "snd prev_mouse_pos"] obtain y1 where
    y1: "pan_axis (snd target) (snd mouse_pos) (snd prev_mouse_pos) = Inr y1" by blast
  show "\<exists>r'. pan 800 600 2560 1440 mouse_pos prev_mouse_pos target = Inr r'"
    unfolding pan_def x1 y1 clamp_x clamp_y by (simp add: bind_fault_def)
next
  assume a: "\<bar>sint tx\<bar> \<le> 2 ^ 23 \<and> \<bar>sint ty\<bar> \<le> 2 ^ 23 \<and>
    \<bar>mx\<bar> \<le> 2 ^ 22 \<and> \<bar>my\<bar> \<le> 2 ^ 22 \<and> \<bar>px\<bar> \<le> 2 ^ 22 \<and> \<bar>py\<bar> \<le> 2 ^ 22"
  define zx where "zx = sint tx - (mx - px)"
  define zy where "zy = sint ty - (my - py)"
  from a have x1: "pan_axis tx (of_int mx) (of_int px) = Inr (word_of_int zx)"
    unfolding zx_def by (intro pan_axis_exact) simp_all
  from a have y1: "pan_axis ty (of_int my) (of_int py) = Inr (word_of_int zy)"
    unfolding zy_def by (intro pan_axis_exact) simp_all
  from a have "\<bar>zx\<bar> \<le> 2 ^ 24" "\<bar>zy\<bar> \<le> 2 ^ 24"
    by (simp_all add: zx_def zy_def abs_le_iff)
  then have "INT_MIN \<le> zx" "zx \<le> INT_MAX" "INT_MIN \<le> zy" "zy \<le> INT_MAX"
    by (simp_all add: INT_MIN_def INT_MAX_def abs_le_iff)
  then have s: "sint (word_of_int zx :: c_int) = zx" "sint (word_of_int zy :: c_int) = zy"
    by (simp_all add: sint_int)
  have "pan 800 600 2560 1440 (of_int mx, of_int my) (of_int px, of_int py) (tx, ty) =
        Inr (word_of_int (CLAMP 400 zx 2160), word_of_int (CLAMP 300 zy 1140))"
    unfolding pan_def fst_conv snd_conv x1 y1 clamp_x clamp_y by (simp add: bind_fault_def s)
  also have "CLAMP 400 zx 2160 = (if zx < 400 then 400 else if 2160 < zx then 2160 else zx)"
    by (simp add: CLAMP_if)
  also have "CLAMP 300 zy 1140 = (if zy < 300 then 300 else if 1140 < zy then 1140 else zy)"
    by (simp add: CLAMP_if)
  finally show "pan 800 600 2560 1440 (of_int mx, of_int my) (of_int px, of_int py) (tx, ty) =
        Inr (word_of_int
               (if sint tx - (mx - px) < 400 then 400
                else if 2160 < sint tx - (mx - px) then 2160
                else sint tx - (mx - px)),
             word_of_int
               (if sint ty - (my - py) < 300 then 300
                else if 1140 < sint ty - (my - py) then 1140
                else sint ty - (my - py)))"
    unfolding zx_def zy_def .
next
  show "resized 3000 2000 2560 1440 target = Inr (1060, 440)"
    by (simp add: resized_def clamp_target_def int_sub_def int_cast_def INT_MIN_def INT_MAX_def
        bind_fault_def CLAMP_def MIN_int_def MAX_int_def signed_divide_int_def)
qed

theorem viewport_clamp_witness:
  "\<bar>sint (400 :: c_int)\<bar> \<le> 2 ^ 23 \<and> \<bar>sint (300 :: c_int)\<bar> \<le> 2 ^ 23 \<and>
   \<bar>0 :: int\<bar> \<le> 2 ^ 22 \<and> \<bar>5000 :: int\<bar> \<le> 2 ^ 22 \<and> \<bar>10 :: int\<bar> \<le> 2 ^ 22 \<and>
   pan 800 600 2560 1440 (0, 0) (5000, 10) (400, 300) = Inr (2160, 310) \<and>
   400 \<le> sint (2160 :: c_int) \<and> sint (2160 :: c_int) \<le> 2160 \<and>
   300 \<le> sint (310 :: c_int) \<and> sint (310 :: c_int) \<le> 1140 \<and>
   resized 3000 2000 2560 1440 (400, 300) = Inr (1060, 440)"
proof -
  have h: "\<bar>sint (400 :: c_int)\<bar> \<le> 2 ^ 23 \<and> \<bar>sint (300 :: c_int)\<bar> \<le> 2 ^ 23 \<and>
    \<bar>0 :: int\<bar> \<le> 2 ^ 22 \<and> \<bar>0 :: int\<bar> \<le> 2 ^ 22 \<and> \<bar>5000 :: int\<bar> \<le> 2 ^ 22 \<and>
    \<bar>10 :: int\<bar> \<le> 2 ^ 22"
    by simp
  note v = viewport_clamp [where tx = 400 and ty = 300 and mx = 0 and my = 0 and px = 5000
      and py = 10 and mouse_pos = "(0, 0)" and prev_mouse_pos = "(5000, 10)"
      and target = "(400, 300)" and r = "(2160, 310)"]
  from v h have p: "pan 800 600 2560 1440 (0, 0) (5000, 10) (400, 300) = Inr (2160, 310)"
    by simp
  from v p h show ?thesis by simp
qed

section \<open>Frames that leave the log alone\<close>

text \<open>
  C10 as stated fails in its first sentence: the release of the left button is not
  the only event that pushes a snapshot. In \<open>at_tip\<close>, a frame that reports the C
  key and no button writes the blank canvas into the free slot of the log, and
  start-up pushes the blank canvas before any frame.
\<close>

theorem clear_pushes_without_release:
  "\<not> left_released (clear_request :: nat input) \<and>
   frame 0 clear_request at_tip =
     Inr \<lparr>images = [Loaded 0, Loaded 1, Loaded 2, Loaded 0], log_size = 4, used_size = 4,
          log_top = 0, selected = 3, framebuffer = 0, unloaded = []\<rparr> \<and>
   \<not> keeps_or_unloads (images at_tip) [Loaded 0, Loaded 1, Loaded 2, Loaded 0] \<and>
   startup malloc_1G 4 0 = Inr fresh \<and> images fresh = [Loaded 0, Uninit, Uninit, Uninit]"
  by (simp add: startup_fresh)
    (simp add: at_tip_def fresh_def keeps_or_unloads_def eval_defs)

text \<open>
  C10, as the code has it. A snapshot is pushed on the release of the left button
  and on the Clear key (and once at start-up), and at no other time: a frame that
  reports nothing but the release is \<^verbatim>\<open>undo_log_push\<close>, a frame that reports nothing
  but the C key is \<^verbatim>\<open>undo_log_push\<close> of the blank canvas, and in every frame that
  reports neither, whatever else it reports, no slot of the log receives an image:
  each slot keeps what it held or is unloaded. In a frame in which raylib reports
  no key and no button but the right one, the log (its images, size, used size, top
  and selected index) and the images unloaded stay as they are, whatever the log
  holds; the canvas is painted with the background colour while the right button
  is down, and no snapshot of it is pushed. The S key of lines 240-244 copies the
  canvas to a file through an image of its own, which never enters the log.
\<close>

theorem snapshot_only_on_release_or_clear:
  "(log_size s \<noteq> 0 \<longrightarrow> frame blank left_release s = undo_log_push s) \<and>
   frame blank clear_request s = undo_log_push (s\<lparr>framebuffer := blank\<rparr>) \<and>
   startup malloc n blank = undo_log_push (init_world (block_slots malloc n) n blank) \<and>
   (frame blank inp s = Inr s' \<and> \<not> key_c inp \<and> \<not> left_released inp \<longrightarrow>
      keeps_or_unloads (images s) (images s')) \<and>
   (log_size s \<noteq> 0 \<and> erase_only inp \<longrightarrow>
      frame blank inp s =
        Inr (s\<lparr>framebuffer :=
                (if right_down inp then capsule inp Background (framebuffer s)
                 else framebuffer s)\<rparr>))"
proof (intro conjI impI)
  assume "log_size s \<noteq> 0"
  then show "frame blank left_release s = undo_log_push s" by (rule frame_left_release)
next
  show "frame blank clear_request s = undo_log_push (s\<lparr>framebuffer := blank\<rparr>)"
    by (simp add: frame_clear_request clear_framebuffer_def)
next
  show "startup malloc n blank = undo_log_push (init_world (block_slots malloc n) n blank)"
    by (simp add: startup_def clear_framebuffer_def init_world_def)
next
  assume "frame blank inp s = Inr s' \<and> \<not> key_c inp \<and> \<not> left_released inp"
  then show "keeps_or_unloads (images s) (images s')"
    by (intro frame_pushes_nothing [of blank inp s s']) simp_all
next
  assume "log_size s \<noteq> 0 \<and> erase_only inp"
  then show "frame blank inp s =
        Inr (s\<lparr>framebuffer :=
                (if right_down inp then capsule inp Background (framebuffer s)
                 else framebuffer s)\<rparr>)"
    by (simp add: frame_def go_forwards_def go_backwards_def on_release_def drawing_def
        erase_only_def bind_fault_def)
qed

theorem snapshot_only_on_release_or_clear_witness:
  "log_size at_tip \<noteq> 0 \<and>
   frame 0 left_release at_tip = undo_log_push at_tip \<and>
   frame 0 clear_request at_tip = undo_log_push (at_tip\<lparr>framebuffer := 0\<rparr>) \<and>
   startup malloc_1G 4 0 = undo_log_push (init_world (block_slots malloc_1G 4) 4 (0 :: nat)) \<and>
   frame 0 (idle\<lparr>right_down := True, capsule := (\<lambda>k x. 7)\<rparr>) at_tip =
     Inr (at_tip\<lparr>framebuffer := 7\<rparr>) \<and>
   \<not> key_c (idle\<lparr>right_down := True, capsule := (\<lambda>k x. 7 :: nat)\<rparr>) \<and>
   \<not> left_released (idle\<lparr>right_down := True, capsule := (\<lambda>k x. 7 :: nat)\<rparr>) \<and>
   erase_only (idle\<lparr>right_down := True, capsule := (\<lambda>k x. 7 :: nat)\<rparr>) \<and>
   keeps_or_unloads (images at_tip) (images (at_tip\<lparr>framebuffer := 7\<rparr>))"
proof -
  let ?inp = "idle\<lparr>right_down := True, capsule := (\<lambda>k x. 7 :: nat)\<rparr>"
  have a: "log_size at_tip \<noteq> 0" by (simp add: at_tip_def)
  have b: "\<not> key_c ?inp" "\<not> left_released ?inp" "erase_only ?inp"
    by (simp_all add: erase_only_def idle_def)
  have c: "frame 0 ?inp at_tip = Inr (at_tip\<lparr>framebuffer := 7\<rparr>)"
    by (simp add: at_tip_def idle_def step_defs)
  from snapshot_only_on_release_or_clear [where s = at_tip and blank = 0 and inp = ?inp
      and s' = "at_tip\<lparr>framebuffer := 7\<rparr>" and malloc = malloc_1G and n = 4] a b c
  show ?thesis by simp
qed

text \<open>
  C5. In a log of non-zero size, a frame that reports nothing but an undo request
  while the distance equals the used size, and a frame that reports nothing but a
  redo request while the distance is at most 1, return without a fault and leave the
  log, the framebuffer and the unloaded images exactly as they were.
\<close>

theorem navigation_guards_noop:
  assumes "log_size s \<noteq> 0"
  shows "(only_undo iu \<and> log_top_dist s = used_size s \<longrightarrow> frame blank iu s = Inr s) \<and>
         (only_redo ir \<and> log_top_dist s \<le> 1 \<longrightarrow> frame blank ir s = Inr s)"
  using assms
  by (auto simp add: frame_def go_forwards_def go_backwards_def on_release_def drawing_def
      only_undo_def only_redo_def bind_fault_def)

theorem navigation_guards_noop_witness:
  "log_size fresh \<noteq> 0 \<and>
   only_undo (undo_request :: nat input) \<and> log_top_dist fresh = used_size fresh \<and>
   frame 0 undo_request fresh = Inr fresh \<and>
   only_redo (redo_request :: nat input) \<and> log_top_dist fresh \<le> 1 \<and>
   frame 0 redo_request fresh = Inr fresh"
  using navigation_guards_noop [where s = fresh and iu = undo_request and ir = redo_request
      and blank = 0]
  by (simp add: fresh_def only_undo_def only_redo_def input_defs log_top_dist_def)

section \<open>Numbers on the command line\<close>

text \<open>
  C9 fails on the code. The only test after \<^verbatim>\<open>strtoul\<close> is against \<^verbatim>\<open>ULONG_MAX\<close>: a
  value for which \<^verbatim>\<open>strtoul\<close> returns anything else is stored and start-up goes on,
  whether or not the text is a number. For \<^verbatim>\<open>--canvas-width abc\<close> the C library
  returns 0, and the program runs with a canvas width of 0.
\<close>

theorem invalid_number_accepted:
  assumes "strtoul val 10 \<noteq> ULONG_MAX"
  shows "main_args strtoul [prog, ''--canvas-width'', val] =
         Inr (default_config\<lparr>canvas_width := strtoul val 10\<rparr>)"
  using assms by (simp add: main_args_def options_def)

theorem invalid_number_accepted_witness:
  "strtoul_c ''abc'' 10 \<noteq> ULONG_MAX \<and>
   main_args strtoul_c [''beak'', ''--canvas-width'', ''abc''] =
     Inr (default_config\<lparr>canvas_width := 0\<rparr>)"
proof -
  have a: "strtoul_c ''abc'' 10 = 0"
    by (simp add: strtoul_c_def isspace_def number_of_def skip_prefix_def digit_of_def)
  have b: "strtoul_c ''abc'' 10 \<noteq> ULONG_MAX"
    by (simp add: a ULONG_MAX_def)
  show ?thesis
    using invalid_number_accepted [where strtoul = strtoul_c and val = "''abc''"
        and prog = "''beak''"] b
    by (simp add: a)
qed

section \<open>The ring of snapshots\<close>

text \<open>
  C3. Push any canvases \<open>xs\<close> into the empty log of a non-zero size \<open>n\<close> whose
  array has room for its \<open>n\<close> images: no push faults, the used size is the number
  of pushes or \<open>n\<close>, whichever is smaller, so it never exceeds \<open>n\<close>, and the
  images unloaded are exactly the first \<open>length xs - n\<close> canvases in the order they
  were pushed: each push into a full log releases the oldest canvas still stored.
\<close>

theorem ring_capacity:
  assumes "0 < n"
  shows "\<exists>s. pushes xs (init_world (unat n) n fb) = Inr s \<and> used_size s \<le> n \<and>
             unat (used_size s) = min (length xs) (unat n) \<and>
             unloaded s = take (length xs - unat n) xs"
proof -
  from pushes_pushed [OF pushed_init [OF assms], of xs fb] obtain s where
    s: "pushes xs (init_world (unat n) n fb) = Inr s" "pushed xs s"
    "log_size s = log_size (init_world (unat n) n fb)"
    by auto
  then have "log_size s = n" by (simp add: init_world_def)
  with s show ?thesis by (auto simp: pushed_def word_le_nat_alt)
qed

theorem ring_capacity_witness:
  "0 < (2 :: size_t) \<and>
   (\<exists>s. pushes [10, 11, 12] (init_world (unat (2 :: size_t)) 2 (0 :: nat)) = Inr s \<and>
        used_size s \<le> 2 \<and> unat (used_size s) = 2 \<and> unloaded s = [10])"
proof -
  have a: "0 < (2 :: size_t)" by simp
  from ring_capacity [OF a, of "[10, 11, 12]" "0 :: nat"] obtain s where
    s: "pushes [10, 11, 12] (init_world (unat (2 :: size_t)) 2 (0 :: nat)) = Inr s"
    "used_size s \<le> 2"
    "unat (used_size s) = min (length [10, 11, 12 :: nat]) (unat (2 :: size_t))"
    "unloaded s = take (length [10, 11, 12 :: nat] - unat (2 :: size_t)) [10, 11, 12]"
    by blast
  from s(3) have "unat (used_size s) = 2" by simp
  moreover from s(4) have "unloaded s = [10]" by simp
  ultimately show ?thesis using a s(1,2) by blast
qed

text \<open>
  C6. In every state of the loop, for an undo log size below \<open>2 ^ 63\<close> and
  whatever \<^verbatim>\<open>malloc\<close> returned, the distance of line 252 is at most the used size
  (and, being unsigned, at least 0), and it is the number
  \<open>(top + size - selected) mod size\<close>: nothing wraps.
\<close>

theorem distance_within_used:
  assumes "n < 2 ^ 63" and "reachable malloc n blank s"
  shows "log_top_dist s \<le> used_size s \<and>
         unat (log_top_dist s) =
           (unat (log_top s) + unat (log_size s) - unat (selected s)) mod unat (log_size s)"
proof -
  from reachable_history [OF assms] have h: "history_ok s" .
  then have "in_range s" by (simp add: history_ok_def)
  from dist_formula [OF this] h show ?thesis by (simp add: history_ok_def)
qed

theorem distance_within_used_witness:
  "(4 :: size_t) < 2 ^ 63 \<and> reachable malloc_1G 4 0 browsing \<and>
   log_top_dist browsing \<le> used_size browsing \<and>
   unat (log_top_dist browsing) =
     (unat (log_top browsing) + unat (log_size browsing) - unat (selected browsing)) mod
       unat (log_size browsing)"
proof -
  have a: "(4 :: size_t) < 2 ^ 63" by simp
  note b = reachable_browsing
  from distance_within_used [OF a b] a b show ?thesis by (intro conjI) simp_all
qed

section \<open>Clear while browsing the history\<close>

text \<open>
  C1 as stated fails: in \<open>browsing\<close> the distance is 3, and the Clear key pushes the
  blank canvas into the free slot at the write index and unloads nothing: the used
  size grows from 3 to 4, and the next undo request shows canvas 2, an entry of the
  branch that was left. A stroke from the same state (left press, then release)
  does prune: it unloads canvases 1 and 2 and leaves a used size of 2.
\<close>

theorem clear_keeps_redo_branch:
  "1 < log_top_dist browsing \<and>
   frame 0 clear_request browsing = Inr after_clear \<and>
   frame 0 undo_request after_clear = Inr (after_clear\<lparr>selected := 2, framebuffer := 2\<rparr>) \<and>
   frames 0 (stroke 9) browsing = Inr after_stroke"
  by (simp add: browsing_def after_clear_def after_stroke_def stroke_def eval_defs)

text \<open>
  C1, as the code has it. In a well-formed log whose distance is greater than 1, a
  frame that reports only the Clear key is the push of the blank canvas and nothing
  more: the blank canvas is written to the slot at the write index and selected,
  the write index advances, the used size grows by one unless the log is full,
  every other slot keeps its image, and no image is unloaded unless the log is full
  (then the push evicts the slot at the write index, as every push does). The
  snapshots between the selected entry and the write index stay reachable: the
  next undo request selects the slot just before the old write index, which is
  neither the old selected entry nor the new one, and shows its canvas.
\<close>

theorem clear_pushes_without_pruning:
  assumes "log_ok s" and "1 < log_top_dist s"
  shows "\<exists>s1 s2 y.
           frame blank clear_request s = Inr s1 \<and>
           images s1 = (images s)[unat (log_top s) := Loaded blank] \<and>
           selected s1 = log_top s \<and> log_top s1 = (log_top s + 1) mod log_size s \<and>
           used_size s1 = (if used_size s < log_size s then used_size s + 1 else used_size s) \<and>
           (used_size s < log_size s \<longrightarrow> unloaded s1 = unloaded s) \<and>
           frame blank undo_request s1 = Inr s2 \<and>
           selected s2 = (log_top s + log_size s - 1) mod log_size s \<and>
           selected s2 \<noteq> selected s \<and> selected s2 \<noteq> log_top s \<and>
           images s ! unat (selected s2) = Loaded y \<and> framebuffer s2 = y"
proof -
  from assms(1) have h: "history_ok s" and al: "allocated s" by (simp_all add: log_ok_def)
  then have ir: "in_range s" by (simp add: history_ok_def)
  with al have r: "unat (log_size s) < 2 ^ 63" "length (images s) = unat (log_size s)"
    "unat (log_top s) < unat (log_size s)" "unat (selected s) < unat (log_size s)"
    "unat (used_size s) \<le> unat (log_size s)"
    by (simp_all add: in_range_nat allocated_def)
  from ir have w: "log_top s < log_size s" by (simp add: in_range_def)
  from assms(2) have d: "2 \<le> unat (log_top_dist s)" by (simp add: word_less_nat_alt)
  from h have du: "unat (log_top_dist s) \<le> unat (used_size s)" by (simp add: history_ok_nat)
  let ?N = "unat (log_size s)" and ?T = "unat (log_top s)" and ?S = "unat (selected s)"
  have n3: "3 \<le> ?N" using d r unfolding dist_nat [OF ir] by (auto split: if_splits)
  from push_framebuffer_ok [OF assms(1), of blank] obtain s1 where
    p1: "undo_log_push (s\<lparr>framebuffer := blank\<rparr>) = Inr s1" and ok1: "log_ok s1"
    and im1: "images s1 = (images s)[?T := Loaded blank]"
    and f1: "log_size s1 = log_size s" "selected s1 = log_top s"
      "log_top s1 = (log_top s + 1) mod log_size s"
      "used_size s1 = (if used_size s < log_size s then used_size s + 1 else used_size s)"
    by blast
  have fr1: "frame blank clear_request s = Inr s1"
    using p1 by (simp add: frame_clear_request clear_framebuffer_def)
  have t1: "unat (log_top s1) = (if ?T + 1 = ?N then 0 else ?T + 1)"
    unfolding f1(3) by (rule unat_next [OF w])
  from ok1 have ir1: "in_range s1" by (simp add: log_ok_def history_ok_def)
  have u1: "2 \<le> unat (used_size s1)"
  proof (cases "used_size s < log_size s")
    case True
    with f1(4) unat_inc [OF True] d du show ?thesis by simp
  next
    case False
    with f1(4) d du show ?thesis by simp
  qed
  have d1: "unat (log_top_dist s1) = 1"
    unfolding dist_nat [OF ir1] f1(2) t1 f1(1) using r n3 by (auto split: if_splits)
  with u1 have lt1: "log_top_dist s1 < used_size s1" by (simp add: word_less_nat_alt)
  have nz1: "log_size s1 \<noteq> 0" using n3 f1(1) by auto
  from copy_back_ok [OF ok1 lt1] obtain s2 y where
    c2: "undo_log_copy s1 (- 1) = Inr s2"
    and y: "images s1 ! unat (selected s2) = Loaded y" "framebuffer s2 = y"
    by blast
  note g2 = copy_indices [OF c2]
  have fr2: "frame blank undo_request s1 = Inr s2"
    using frame_undo_request [OF nz1, of blank] lt1 c2 by simp
  have e2: "selected s2 = (log_top s + log_size s - 1) mod log_size s"
    using g2(4) f1(1) f1(2) by simp
  from ir1 have ws1: "selected s1 < log_size s1" "unat (log_size s1) < 2 ^ 63"
    by (simp_all add: in_range_def word_less_nat_alt)
  have "unat (selected s2) =
        (if unat (selected s1) = 0 then unat (log_size s1) - 1 else unat (selected s1) - 1)"
    using unat_prev [OF ws1] g2(4) by simp
  then have sel2: "unat (selected s2) = (if ?T = 0 then ?N - 1 else ?T - 1)"
    by (simp add: f1(1) f1(2))
  have neT: "unat (selected s2) \<noteq> ?T" using sel2 n3 by (auto split: if_splits)
  have neS: "unat (selected s2) \<noteq> ?S"
    using sel2 d r unfolding dist_nat [OF ir] by (auto split: if_splits)
  have "images s1 ! unat (selected s2) = images s ! unat (selected s2)"
    unfolding im1 using neT by simp
  with y have "images s ! unat (selected s2) = Loaded y" by simp
  moreover from neT have "selected s2 \<noteq> log_top s" by auto
  moreover from neS have "selected s2 \<noteq> selected s" by auto
  moreover have "used_size s < log_size s \<longrightarrow> unloaded s1 = unloaded s"
    using push_room_unloaded [OF _ _ p1] r by simp
  ultimately show ?thesis using fr1 im1 f1 fr2 e2 y(2) by blast
qed

theorem clear_pushes_without_pruning_witness:
  "log_ok browsing \<and> 1 < log_top_dist browsing \<and>
   (\<exists>s1 s2 y.
      frame 0 clear_request browsing = Inr s1 \<and>
      images s1 = (images browsing)[unat (log_top browsing) := Loaded 0] \<and>
      selected s1 = log_top browsing \<and>
      log_top s1 = (log_top browsing + 1) mod log_size browsing \<and>
      used_size s1 =
        (if used_size browsing < log_size browsing then used_size browsing + 1
         else used_size browsing) \<and>
      (used_size browsing < log_size browsing \<longrightarrow> unloaded s1 = unloaded browsing) \<and>
      frame 0 undo_request s1 = Inr s2 \<and>
      selected s2 = (log_top browsing + log_size browsing - 1) mod log_size browsing \<and>
      selected s2 \<noteq> selected browsing \<and> selected s2 \<noteq> log_top browsing \<and>
      images browsing ! unat (selected s2) = Loaded y \<and> framebuffer s2 = y)"
proof -
  note ok = browsing_ok
  have lt: "1 < log_top_dist browsing" by (simp add: browsing_def log_top_dist_def)
  from clear_pushes_without_pruning [OF ok lt, of 0] ok lt show ?thesis by (intro conjI)
qed

section \<open>A stroke after undoing\<close>

text \<open>
  C2 fails on the code when the log is full and the user undoes to the oldest
  entry. With three slots, start-up and two strokes fill the log (\<open>full3\<close>). Two
  undo requests select the oldest entry, and the distance of line 252, taken modulo
  the size, is 0 and not 3. The press of the next stroke therefore prunes nothing,
  and its release pushes into the full log: the used size stays 3 where the claim
  says \<open>3 - 2 + 1 = 2\<close>, the entry unloaded is the selected one (canvas 0), and the
  two entries that should have been pruned are still there: the next undo request
  shows canvas 2. Where \<open>k + 1\<close> is less than the size, the code does what the claim
  says (lemma \<open>stroke_after_undo_prunes\<close>).
\<close>

theorem full_ring_stroke_not_pruned:
  "bind_fault (startup malloc_1G 3 0) (frames 0 (stroke 1 @ stroke 2)) = Inr full3 \<and>
   used_size full3 = 3 \<and>
   frames 0 [undo_request, undo_request] full3 =
     Inr (full3\<lparr>selected := 0, framebuffer := 0\<rparr>) \<and>
   log_top_dist (full3\<lparr>selected := 0, framebuffer := 0\<rparr>) = 0 \<and>
   frames 0 ([undo_request, undo_request] @ stroke 3) full3 =
     Inr \<lparr>images = [Loaded 3, Loaded 1, Loaded 2], log_size = 3, used_size = 3,
          log_top = 1, selected = 0, framebuffer = 3, unloaded = [0]\<rparr> \<and>
   frames 0 ([undo_request, undo_request] @ stroke 3 @ [undo_request]) full3 =
     Inr \<lparr>images = [Loaded 3, Loaded 1, Loaded 2], log_size = 3, used_size = 3,
          log_top = 1, selected = 2, framebuffer = 2, unloaded = [0]\<rparr>"
  by (simp add: startup_def block_slots_def sizeof_Image_def malloc_1G_def init_world_def
      full3_def stroke_def replicate_3 eval_defs)

section \<open>Undo and redo after two pushes\<close>

text \<open>
  C4 as stated fails for small logs. With one slot, the push of canvas 6 evicts
  canvas 5, and the undo request shows canvas 6 again. With two slots, the undo
  request shows canvas 5, but the distance is then 0 and the redo request does
  nothing: the canvas stays 5.
\<close>

theorem round_trip_small_logs:
  "bind_fault (startup malloc_1G 1 (0 :: nat))
     (\<lambda>s. bind_fault (pushes [5, 6] s) (frames 0 [undo_request])) =
     Inr \<lparr>images = [Loaded 6], log_size = 1, used_size = 1, log_top = 0, selected = 0,
          framebuffer = 6, unloaded = [0, 5]\<rparr> \<and>
   bind_fault (startup malloc_1G 2 (0 :: nat))
     (\<lambda>s. bind_fault (pushes [5, 6] s) (frames 0 [undo_request, redo_request])) =
     Inr \<lparr>images = [Loaded 6, Loaded 5], log_size = 2, used_size = 2, log_top = 1,
          selected = 1, framebuffer = 5, unloaded = [0]\<rparr>"
  by (simp add: startup_def block_slots_def sizeof_Image_def malloc_1G_def init_world_def
      replicate_2 eval_defs)

text \<open>
  C4, as the code has it. In a well-formed log of at least three slots: push
  canvas \<open>a\<close>, push canvas \<open>b\<close>; neither push faults, an undo request then makes
  the framebuffer \<open>a\<close>, and a redo request after it makes the framebuffer \<open>b\<close>.
\<close>

theorem undo_redo_round_trip:
  assumes "log_ok s" and "3 \<le> log_size s"
  shows "\<exists>s1 s2 s3 s4.
           undo_log_push (s\<lparr>framebuffer := a\<rparr>) = Inr s1 \<and>
           undo_log_push (s1\<lparr>framebuffer := b\<rparr>) = Inr s2 \<and>
           frame blank undo_request s2 = Inr s3 \<and> framebuffer s3 = a \<and>
           frame blank redo_request s3 = Inr s4 \<and> framebuffer s4 = b"
proof -
  from assms(1) have ir: "in_range s" and al: "allocated s"
    by (simp_all add: log_ok_def history_ok_def)
  then have r: "unat (log_size s) < 2 ^ 63" "length (images s) = unat (log_size s)"
    "unat (log_top s) < unat (log_size s)" "unat (used_size s) \<le> unat (log_size s)"
    by (simp_all add: in_range_nat allocated_def)
  from ir have w: "log_top s < log_size s" by (simp add: in_range_def)
  from assms(2) have n3: "3 \<le> unat (log_size s)" by (simp add: word_le_nat_alt)
  let ?N = "unat (log_size s)" and ?T = "unat (log_top s)"
  \<comment> \<open>the two pushes\<close>
  from push_framebuffer_ok [OF assms(1), of a] obtain s1 where
    p1: "undo_log_push (s\<lparr>framebuffer := a\<rparr>) = Inr s1" and ok1: "log_ok s1"
    and im1: "images s1 = (images s)[?T := Loaded a]"
    and f1: "log_size s1 = log_size s" "selected s1 = log_top s"
      "log_top s1 = (log_top s + 1) mod log_size s"
      "used_size s1 = (if used_size s < log_size s then used_size s + 1 else used_size s)"
    by blast
  have t1: "unat (log_top s1) = (if ?T + 1 = ?N then 0 else ?T + 1)"
    unfolding f1(3) by (rule unat_next [OF w])
  from ok1 have ir1: "in_range s1" by (simp add: log_ok_def history_ok_def)
  then have w1: "log_top s1 < log_size s1" by (simp add: in_range_def)
  from ok1 have u1: "1 \<le> unat (used_size s1)" by (simp add: log_ok_def history_ok_nat)
  from push_framebuffer_ok [OF ok1, of b] obtain s2 where
    p2: "undo_log_push (s1\<lparr>framebuffer := b\<rparr>) = Inr s2" and ok2: "log_ok s2"
    and im2: "images s2 = (images s1)[unat (log_top s1) := Loaded b]"
    and f2: "log_size s2 = log_size s1" "selected s2 = log_top s1"
      "log_top s2 = (log_top s1 + 1) mod log_size s1"
      "used_size s2 = (if used_size s1 < log_size s1 then used_size s1 + 1 else used_size s1)"
    by blast
  have t2: "unat (log_top s2) =
            (if unat (log_top s1) + 1 = ?N then 0 else unat (log_top s1) + 1)"
    unfolding f2(3) using unat_next [OF w1] f1(1) by simp
  from ok2 have ir2: "in_range s2" and h2: "history_ok s2"
    by (simp_all add: log_ok_def history_ok_def)
  have u2: "2 \<le> unat (used_size s2)"
  proof (cases "used_size s1 < log_size s1")
    case True
    with f2(4) unat_inc [OF True] u1 show ?thesis by simp
  next
    case False
    moreover from ir1 have "used_size s1 \<le> log_size s1" by (simp add: in_range_def)
    ultimately have "used_size s1 = log_size s1" by simp
    with f2(4) f1(1) n3 show ?thesis by simp
  qed
  have d2: "unat (log_top_dist s2) = 1"
    unfolding dist_nat [OF ir2] f2(2) t2 f2(1) f1(1) using t1 r n3 by (auto split: if_splits)
  have nz2: "log_size s2 \<noteq> 0" using n3 f2(1) f1(1) by auto
  \<comment> \<open>undo\<close>
  from d2 u2 have lt2: "log_top_dist s2 < used_size s2" by (simp add: word_less_nat_alt)
  from copy_back_ok [OF ok2 lt2] obtain s3 y where
    c3: "undo_log_copy s2 (- 1) = Inr s3" and ok3: "log_ok s3"
    and y: "images s2 ! unat (selected s3) = Loaded y" "framebuffer s3 = y"
    by blast
  note g3 = copy_indices [OF c3]
  from ir2 have ws2: "selected s2 < log_size s2" "unat (log_size s2) < 2 ^ 63"
    by (simp_all add: in_range_def word_less_nat_alt)
  have "unat (selected s3) =
        (if unat (selected s2) = 0 then unat (log_size s2) - 1 else unat (selected s2) - 1)"
    using unat_prev [OF ws2] g3(4) by simp
  then have sel3: "unat (selected s3) = ?T"
    unfolding f2(2) f2(1) f1(1) using t1 r n3 by (auto split: if_splits)
  have ne: "unat (log_top s1) \<noteq> ?T" using t1 n3 by (auto split: if_splits)
  have "images s2 ! ?T = Loaded a"
    unfolding im2 im1 using ne r by simp
  with y sel3 have fb3: "framebuffer s3 = a" by simp
  have fr3: "frame blank undo_request s2 = Inr s3"
    using frame_undo_request [OF nz2, of blank] lt2 c3 by simp
  \<comment> \<open>redo\<close>
  from ok3 have ir3: "in_range s3" by (simp add: log_ok_def history_ok_def)
  have d3: "unat (log_top_dist s3) = 2"
    unfolding dist_nat [OF ir3] sel3 g3(1) g3(2) t2 f2(1) f1(1) using t1 r n3
    by (auto split: if_splits)
  then have lt3: "1 < log_top_dist s3" by (simp add: word_less_nat_alt)
  have nz3: "log_size s3 \<noteq> 0" using nz2 g3(1) by simp
  from copy_forth_ok [OF ok3 lt3] obtain s4 z where
    c4: "undo_log_copy s3 1 = Inr s4"
    and z: "images s3 ! unat (selected s4) = Loaded z" "framebuffer s4 = z"
    by blast
  note g4 = copy_indices [OF c4]
  from ir3 have ws3: "selected s3 < log_size s3" "unat (log_size s3) < 2 ^ 63"
    by (simp_all add: in_range_def word_less_nat_alt)
  have "unat (selected s4) =
        (if unat (selected s3) + 1 = unat (log_size s3) then 0 else unat (selected s3) + 1)"
    using unat_succ [OF ws3] g4(4) by simp
  then have sel4: "unat (selected s4) = unat (log_top s1)"
    unfolding sel3 g3(1) f2(1) f1(1) using t1 by simp
  have "images s3 ! unat (log_top s1) = Loaded b"
    unfolding g3(5) im2 im1 using t1 r by (auto split: if_splits)
  with z sel4 have fb4: "framebuffer s4 = b" by simp
  have fr4: "frame blank redo_request s3 = Inr s4"
    using frame_redo_request [OF nz3, of blank] lt3 c4 by simp
  from p1 p2 fr3 fb3 fr4 fb4 show ?thesis by blast
qed

theorem undo_redo_round_trip_witness:
  "log_ok fresh \<and> 3 \<le> log_size fresh \<and>
   (\<exists>s1 s2 s3 s4.
      undo_log_push (fresh\<lparr>framebuffer := 5\<rparr>) = Inr s1 \<and>
      undo_log_push (s1\<lparr>framebuffer := 6\<rparr>) = Inr s2 \<and>
      frame 0 undo_request s2 = Inr s3 \<and> framebuffer s3 = 5 \<and>
      frame 0 redo_request s3 = Inr s4 \<and> framebuffer s4 = 6)"
proof -
  note ok = fresh_ok
  have n3: "3 \<le> log_size fresh" by (simp add: fresh_def)
  from undo_redo_round_trip [OF ok n3, of 5 6 0] ok n3 show ?thesis by (intro conjI)
qed

section \<open>Start-up, and safety of push and materialize\<close>

text \<open>
  C8 as stated fails, in both halves. With capacity 0 nothing stops the program
  before the first push: start-up is the first \<^verbatim>\<open>clear_framebuffer\<close>, the assertion
  of \<^verbatim>\<open>undo_log_push\<close> holds (0 \<open>\<le>\<close> 0), and the push then indexes an array with
  room for nothing. With a capacity greater than 0 the first push fails when
  \<^verbatim>\<open>malloc\<close> returns the null pointer, as for \<^verbatim>\<open>--undo-log-size 1000000000000000\<close>
  on a machine that cannot provide \<open>24 * 10 ^ 15\<close> bytes, or for any capacity on a
  machine that has no memory left. With capacity \<open>2 ^ 61 + 1\<close> the byte count
  wraps to 24, the block has room for one image, and the push of the first stroke
  writes outside it. And in \<open>browsing\<close>, a frame that reports the left press
  together with the W key fails in materialize: the press unloads the image after
  the selected one, and the redo of the same frame hands that image to
  \<^verbatim>\<open>LoadTextureFromImage\<close>.
\<close>

theorem startup_and_redo_can_fault:
  "used_size (init_world 0 0 (0 :: nat)) \<le> log_size (init_world 0 0 (0 :: nat)) \<and>
   startup malloc_1G 0 (0 :: nat) = undo_log_push (init_world 0 0 0) \<and>
   startup malloc_1G 0 (0 :: nat) = Inl Out_Of_Bounds \<and>
   startup malloc_1G 1000000000000000 (0 :: nat) = Inl Out_Of_Bounds \<and>
   startup malloc_null 4 (0 :: nat) = Inl Out_Of_Bounds \<and>
   (0x2000000000000001 :: size_t) * sizeof_Image = 24 \<and>
   startup malloc_1G 0x2000000000000001 (0 :: nat) =
     Inr \<lparr>images = [Loaded 0], log_size = 0x2000000000000001, used_size = 1, log_top = 1,
          selected = 0, framebuffer = 0, unloaded = []\<rparr> \<and>
   bind_fault (startup malloc_1G 0x2000000000000001 (0 :: nat)) (frames 0 (stroke 1)) =
     Inl Out_Of_Bounds \<and>
   frame 0 ((left_press (\<lambda>x. 9))\<lparr>key_w := True\<rparr>) browsing = Inl Invalid_Image"
  by (simp add: startup_def block_slots_def sizeof_Image_def malloc_1G_def malloc_null_def
      init_world_def browsing_def stroke_def eval_defs)

text \<open>
  C8, as the code has it. With capacity 0 the first push of start-up runs and
  faults, whatever \<^verbatim>\<open>malloc\<close> returns. With a capacity \<open>n\<close> greater than 0 whose
  byte count does not wrap and for which \<^verbatim>\<open>malloc\<close> returns a block, start-up
  succeeds, and in every state of the loop: a push succeeds; the materialize of an
  undo succeeds when the distance is less than the used size, and that of a redo
  when the distance is greater than 1, which are the tests the loop makes; and a
  whole frame returns without a fault, the frame set aside that reports the left
  press together with a redo request and no Clear key while the distance is
  greater than 1 (lemma \<open>frame_faults\<close>).
\<close>

theorem push_and_materialize_safe:
  "startup malloc 0 blank = Inl Out_Of_Bounds \<and>
   (0 < n \<and> unat n * unat sizeof_Image < 2 ^ 64 \<and> malloc (n * sizeof_Image) \<longrightarrow>
      (\<exists>s0. startup malloc n blank = Inr s0) \<and>
      (reachable malloc n blank s \<longrightarrow>
         (\<exists>s'. undo_log_push s = Inr s') \<and>
         (log_top_dist s < used_size s \<longrightarrow> (\<exists>s'. undo_log_copy s (- 1) = Inr s')) \<and>
         (1 < log_top_dist s \<longrightarrow> (\<exists>s'. undo_log_copy s 1 = Inr s')) \<and>
         (\<not> (left_pressed inp \<and> (key_w inp \<or> extra_pressed inp) \<and> \<not> key_c inp \<and>
             1 < log_top_dist s) \<longrightarrow>
            (\<exists>s'. frame blank inp s = Inr s'))))"
proof (intro conjI impI)
  show "startup malloc 0 blank = Inl Out_Of_Bounds"
    by (simp add: startup_def block_slots_def init_world_def eval_defs)
next
  assume "0 < n \<and> unat n * unat sizeof_Image < 2 ^ 64 \<and> malloc (n * sizeof_Image)"
  then show "\<exists>s0. startup malloc n blank = Inr s0"
    using startup_ok [where malloc = malloc and n = n and blank = blank] by blast
next
  assume n: "0 < n \<and> unat n * unat sizeof_Image < 2 ^ 64 \<and> malloc (n * sizeof_Image)"
    and re: "reachable malloc n blank s"
  then have ok: "log_ok s"
    using reachable_ok [where malloc = malloc and n = n and blank = blank and s = s] by blast
  then have "in_range s" "allocated s" "slots_ok s"
    by (simp_all add: log_ok_def history_ok_def)
  from push_ok [OF this] show "\<exists>s'. undo_log_push s = Inr s'" by blast
  {
    assume "log_top_dist s < used_size s"
    from copy_back_ok [OF ok this] show "\<exists>s'. undo_log_copy s (- 1) = Inr s'" by blast
  }
  {
    assume "1 < log_top_dist s"
    from copy_forth_ok [OF ok this] show "\<exists>s'. undo_log_copy s 1 = Inr s'" by blast
  }
  {
    assume "\<not> (left_pressed inp \<and> (key_w inp \<or> extra_pressed inp) \<and> \<not> key_c inp \<and>
               1 < log_top_dist s)"
    from frame_returns [OF ok this] show "\<exists>s'. frame blank inp s = Inr s'" .
  }
qed

theorem push_and_materialize_safe_witness:
  "startup malloc_1G 0 (0 :: nat) = Inl Out_Of_Bounds \<and>
   0 < (4 :: size_t) \<and> unat (4 :: size_t) * unat sizeof_Image < 2 ^ 64 \<and>
   malloc_1G (4 * sizeof_Image) \<and>
   (\<exists>s0. startup malloc_1G 4 (0 :: nat) = Inr s0) \<and>
   reachable malloc_1G 4 0 browsing \<and>
   (\<exists>s'. undo_log_push browsing = Inr s') \<and>
   1 < log_top_dist browsing \<and> (\<exists>s'. undo_log_copy browsing 1 = Inr s') \<and>
   \<not> (left_pressed (left_press (\<lambda>x. 9 :: nat)) \<and>
      (key_w (left_press (\<lambda>x. 9 :: nat)) \<or> extra_pressed (left_press (\<lambda>x. 9 :: nat))) \<and>
      \<not> key_c (left_press (\<lambda>x. 9 :: nat)) \<and> 1 < log_top_dist browsing) \<and>
   (\<exists>s'. frame 0 (left_press (\<lambda>x. 9)) browsing = Inr s')"
proof -
  note re = reachable_browsing
  have n: "0 < (4 :: size_t) \<and> unat (4 :: size_t) * unat sizeof_Image < 2 ^ 64 \<and>
           malloc_1G (4 * sizeof_Image)"
    using fits_4 by simp
  have lt: "1 < log_top_dist browsing" by (simp add: browsing_def log_top_dist_def)
  have q: "\<not> (left_pressed (left_press (\<lambda>x. 9 :: nat)) \<and>
      (key_w (left_press (\<lambda>x. 9 :: nat)) \<or> extra_pressed (left_press (\<lambda>x. 9 :: nat))) \<and>
      \<not> key_c (left_press (\<lambda>x. 9 :: nat)) \<and> 1 < log_top_dist browsing)"
    by (simp add: left_press_def idle_def)
  from push_and_materialize_safe [of malloc_1G 0 4 browsing "left_press (\<lambda>x. 9)"] n re lt q
  show ?thesis by simp
qed

end
